theory Spec2Isabelle
  imports Complex_Main
begin

section \<open>Marbles bounty bot: the screenshot-to-ranking pipeline and the bounty ledger\<close>

text \<open>
  A shallow embedding of \<^verbatim>\<open>marblesbounty.py\<close>. Python \<^verbatim>\<open>str\<close> values are modelled
  as lists of 8-bit characters read as ASCII text: \<^verbatim>\<open>lower\<close>, \<^verbatim>\<open>upper\<close>, \<^verbatim>\<open>isdigit\<close>,
  \<^verbatim>\<open>isspace\<close> and the regular-expression classes \<^verbatim>\<open>\w\<close> and \<^verbatim>\<open>\s\<close> are the ASCII
  parts of Python's tables, and every other character is left alone and belongs to no
  class. Python \<^verbatim>\<open>int\<close> is \<^typ>\<open>int\<close>. The float arithmetic of
  \<^verbatim>\<open>calculate_bounty\<close> is modelled with IEEE double rounding written out.
\<close>

subsection \<open>Characters and strings (ASCII part of Python's \<^verbatim>\<open>str\<close>)\<close>

definition is_upper :: "char \<Rightarrow> bool" where
  "is_upper c = (65 \<le> (of_char c :: nat) \<and> (of_char c :: nat) \<le> 90)"

definition is_lower :: "char \<Rightarrow> bool" where
  "is_lower c = (97 \<le> (of_char c :: nat) \<and> (of_char c :: nat) \<le> 122)"

definition isdigit :: "char \<Rightarrow> bool" where
  "isdigit c = (48 \<le> (of_char c :: nat) \<and> (of_char c :: nat) \<le> 57)"

text \<open>The pattern class \<^verbatim>\<open>[A-Za-z]\<close>.\<close>

definition is_letter :: "char \<Rightarrow> bool" where
  "is_letter c = (is_upper c \<or> is_lower c)"

text \<open>The pattern class \<^verbatim>\<open>[A-Za-z0-9_]\<close>, which is also \<^verbatim>\<open>\w\<close> on ASCII text.\<close>

definition is_word_char :: "char \<Rightarrow> bool" where
  "is_word_char c = (is_letter c \<or> isdigit c \<or> c = CHR ''_'')"

text \<open>
  \<^verbatim>\<open>str.isspace\<close> and \<^verbatim>\<open>\s\<close> on ASCII: tab, line feed, vertical tab, form feed,
  carriage return, the four separators 0x1C..0x1F and the space.
\<close>

definition isspace :: "char \<Rightarrow> bool" where
  "isspace c = ((9 \<le> (of_char c :: nat) \<and> (of_char c :: nat) \<le> 13)
     \<or> (28 \<le> (of_char c :: nat) \<and> (of_char c :: nat) \<le> 32))"

definition lower_char :: "char \<Rightarrow> char" where
  "lower_char c = (if is_upper c then char_of ((of_char c :: nat) + 32) else c)"

definition upper_char :: "char \<Rightarrow> char" where
  "upper_char c = (if is_lower c then char_of ((of_char c :: nat) - 32) else c)"

text \<open>\<^verbatim>\<open>s.lower()\<close> and \<^verbatim>\<open>s.upper()\<close>.\<close>

definition lower :: "string \<Rightarrow> string" where
  "lower s = map lower_char s"

definition upper :: "string \<Rightarrow> string" where
  "upper s = map upper_char s"

text \<open>\<^verbatim>\<open>s.startswith(p)\<close>, and \<^verbatim>\<open>needle in haystack\<close> on strings: the needle is tried at
  every offset of the haystack, the empty needle is found everywhere.\<close>

fun startswith :: "string \<Rightarrow> string \<Rightarrow> bool" where
  "startswith s [] = True"
| "startswith [] (p # ps) = False"
| "startswith (c # cs) (p # ps) = (c = p \<and> startswith cs ps)"

fun str_contains :: "string \<Rightarrow> string \<Rightarrow> bool" where
  "str_contains needle [] = (needle = [])"
| "str_contains needle (c # cs) = (startswith (c # cs) needle \<or> str_contains needle cs)"

subsection \<open>OCR error correction\<close>

text \<open>
  \<^verbatim>\<open>normalize_ocr_text\<close>: lower-case, then the three substitutions
  \<^verbatim>\<open>re.sub(r'[l1]', 'i', text)\<close>, \<^verbatim>\<open>re.sub(r'0', 'o', text)\<close>, \<^verbatim>\<open>re.sub(r'5', 's', text)\<close>,
  in that order.
\<close>

definition sub_l1 :: "string \<Rightarrow> string" where
  "sub_l1 s = map (\<lambda>c. if c = CHR ''l'' \<or> c = CHR ''1'' then CHR ''i'' else c) s"

definition sub_0 :: "string \<Rightarrow> string" where
  "sub_0 s = map (\<lambda>c. if c = CHR ''0'' then CHR ''o'' else c) s"

definition sub_5 :: "string \<Rightarrow> string" where
  "sub_5 s = map (\<lambda>c. if c = CHR ''5'' then CHR ''s'' else c) s"

definition normalize_ocr_text :: "string \<Rightarrow> string" where
  "normalize_ocr_text text = sub_5 (sub_0 (sub_l1 (lower text)))"


definition fuzzy_match_keyword :: "string \<Rightarrow> string \<Rightarrow> bool" where
  "fuzzy_match_keyword text keyword =
     (let normalized_text = normalize_ocr_text text;
          normalized_keyword = normalize_ocr_text keyword
      in str_contains normalized_keyword normalized_text)"

text \<open>\<^verbatim>\<open>any(fuzzy_match_keyword(text, kw) for kw in keywords)\<close>.\<close>

definition fuzzy_match_any :: "string \<Rightarrow> string list \<Rightarrow> bool" where
  "fuzzy_match_any text keywords = list_ex (\<lambda>kw. fuzzy_match_keyword text kw) keywords"

subsection \<open>Errors\<close>

text \<open>
  The exceptions the modelled code can raise. A function that can raise returns a sum,
  \<open>Inl\<close> carrying the exception; a function that mutates the ledger before it raises
  returns the exception together with the ledger as the exception leaves it.
\<close>

datatype py_error = OverflowError | IndexError

definition err_bind :: "py_error + 'a \<Rightarrow> ('a \<Rightarrow> py_error + 'b) \<Rightarrow> py_error + 'b" where
  "err_bind r f = (case r of Inl e \<Rightarrow> Inl e | Inr v \<Rightarrow> f v)"

subsection \<open>Python floats: IEEE double precision, round to nearest, ties to even\<close>

text \<open>
  A finite double is written as a pair \<open>(m, e)\<close> standing for the number \<open>m * 2 ^ e\<close>;
  the pair need not be normalised. \<^verbatim>\<open>int.bit_length\<close> gives the number of bits of a
  positive integer.
\<close>

type_synonym pyfloat = "int \<times> int"

function bit_length :: "int \<Rightarrow> int" where
  "bit_length n = (if n \<le> 0 then 0 else 1 + bit_length (n div 2))"
  by pat_completeness auto
termination
  by (relation "measure nat") auto

declare bit_length.simps [simp del]


text \<open>\<open>m / 2 ^ k\<close> rounded to the nearest integer, a tie going to the even neighbour.\<close>

definition round_half_even :: "int \<Rightarrow> nat \<Rightarrow> int" where
  "round_half_even m k =
     (let q = m div 2 ^ k; r = m mod 2 ^ k
      in if 2 * r < 2 ^ k then q
         else if 2 * r > 2 ^ k then q + 1
         else if even q then q else q + 1)"

text \<open>
  Rounding an exact value to a double: at most 53 significant bits, no bit below
  \<open>2 ^ - 1074\<close>, and a rounded magnitude of \<open>2 ^ 1024\<close> or more overflows. Converting
  an \<^verbatim>\<open>int\<close> and dividing two \<^verbatim>\<open>int\<close>s raise \<^verbatim>\<open>OverflowError\<close> at once on overflow;
  float subtraction and multiplication give an infinity instead, which
  \<^verbatim>\<open>calculate_bounty\<close> multiplies by 20 (still an infinity) and passes to \<^verbatim>\<open>int()\<close>,
  which raises \<^verbatim>\<open>OverflowError\<close>. Every overflow of that function therefore ends in
  the same exception, and the model raises it where the overflow happens.
\<close>

definition round_double :: "pyfloat \<Rightarrow> py_error + pyfloat" where
  "round_double x =
     (let m = fst x; e = snd x;
          k = max (bit_length \<bar>m\<bar> - 53) (- 1074 - e);
          y = (if k \<le> 0 then (m, e) else (round_half_even m (nat k), e + k))
      in if bit_length \<bar>fst y\<bar> + snd y > 1024 then Inl OverflowError else Inr y)"

text \<open>\<^verbatim>\<open>float(n)\<close> for an \<^verbatim>\<open>int\<close> (the implicit conversion of a mixed operation).\<close>

definition int_to_float :: "int \<Rightarrow> py_error + pyfloat" where
  "int_to_float n = round_double (n, 0)"

text \<open>\<^verbatim>\<open>n / 2\<close> on an \<^verbatim>\<open>int\<close>: true division, correctly rounded.\<close>

definition int_truediv_2 :: "int \<Rightarrow> py_error + pyfloat" where
  "int_truediv_2 n = round_double (n, - 1)"

definition float_sub :: "pyfloat \<Rightarrow> pyfloat \<Rightarrow> py_error + pyfloat" where
  "float_sub x y =
     (let e = min (snd x) (snd y)
      in round_double (fst x * 2 ^ nat (snd x - e) - fst y * 2 ^ nat (snd y - e), e))"

definition float_mul :: "pyfloat \<Rightarrow> pyfloat \<Rightarrow> py_error + pyfloat" where
  "float_mul x y = round_double (fst x * fst y, snd x + snd y)"

text \<open>\<^verbatim>\<open>int(x)\<close> on a finite float: truncation toward zero.\<close>

definition float_to_int :: "pyfloat \<Rightarrow> int" where
  "float_to_int x =
     (if 0 \<le> snd x then fst x * 2 ^ nat (snd x)
      else sgn (fst x) * (\<bar>fst x\<bar> div 2 ^ nat (- snd x)))"

subsection \<open>Bounty calculation\<close>

definition WIN_BONUS :: int where
  "WIN_BONUS = 200"

definition PLACEMENT_FACTOR :: int where
  "PLACEMENT_FACTOR = 20"

text \<open>
  The expression
  \<^verbatim>\<open>((total_players - position + 1) - (total_players / 2)) * PLACEMENT_FACTOR\<close>:
  an \<^verbatim>\<open>int\<close>, minus a float quotient, times an \<^verbatim>\<open>int\<close>.
\<close>

definition placement_score :: "int \<Rightarrow> int \<Rightarrow> py_error + pyfloat" where
  "placement_score position total_players =
     err_bind (int_truediv_2 total_players) (\<lambda>half.
     err_bind (int_to_float (total_players - position + 1)) (\<lambda>ahead.
     err_bind (float_sub ahead half) (\<lambda>diff.
     err_bind (int_to_float PLACEMENT_FACTOR) (\<lambda>factor.
     float_mul diff factor))))"

definition calculate_bounty :: "int \<Rightarrow> int \<Rightarrow> bool \<Rightarrow> py_error + int" where
  "calculate_bounty position total_players is_winner =
     (let win_bounty = (if is_winner then WIN_BONUS else 0)
      in err_bind (placement_score position total_players) (\<lambda>score.
           Inr (win_bounty + float_to_int score)))"




text \<open>
  An upper bound on the binary order of magnitude of a float \<open>(m, e)\<close>: its absolute
  value is below \<open>2 ^ mag (m, e)\<close>. Used to show that no overflow occurs.
\<close>

definition mag :: "pyfloat \<Rightarrow> int" where
  "mag x = bit_length \<bar>fst x\<bar> + snd x"

subsection \<open>Rankings\<close>

text \<open>
  A parsed screenshot is the dictionary
  \<^verbatim>\<open>{'total_players': n, 'results': [(name, position), ...]}\<close>.
\<close>

type_synonym entry = "string \<times> int"

record game_data =
  total_players :: int
  results :: "entry list"

text \<open>
  The Ranking invariant of the data model: \<^verbatim>\<open>total_players == len(entries)\<close>, the entry
  at index \<open>i\<close> carries position \<open>i + 1\<close>, and no two names are equal case-insensitively.
\<close>

definition positions_contiguous :: "entry list \<Rightarrow> bool" where
  "positions_contiguous es = (map snd es = map (\<lambda>i. int i + 1) [0..<length es])"

definition names_unique :: "entry list \<Rightarrow> bool" where
  "names_unique es = distinct (map (\<lambda>e. lower (fst e)) es)"

definition ranking_invariant :: "game_data \<Rightarrow> bool" where
  "ranking_invariant g =
     (total_players g = int (length (results g))
      \<and> positions_contiguous (results g) \<and> names_unique (results g))"

subsection \<open>Screenshot merging\<close>

text \<open>
  The inner loop of \<^verbatim>\<open>merge_screenshot_data\<close> over the entries of one further
  screenshot. Its state is \<^verbatim>\<open>merged_results\<close>, \<^verbatim>\<open>existing_names\<close> and
  \<^verbatim>\<open>current_max_position\<close>; the counters that are only printed are left out.
\<close>

fun merge_new_results ::
  "entry list \<Rightarrow> entry list \<times> string set \<times> int \<Rightarrow> entry list \<times> string set \<times> int" where
  "merge_new_results [] st = st"
| "merge_new_results ((player_name, original_position) # rest)
       (merged_results, existing_names, current_max_position) =
     (let player_lower = lower player_name
      in if player_lower \<in> existing_names
         then merge_new_results rest (merged_results, existing_names, current_max_position)
         else merge_new_results rest
                (merged_results @ [(player_name, current_max_position + 1)],
                 insert player_lower existing_names,
                 current_max_position + 1))"

text \<open>
  The outer loop over \<^verbatim>\<open>parsed_data_list[1:]\<close>; \<^verbatim>\<open>existing_names\<close> is rebuilt from
  \<^verbatim>\<open>merged_results\<close> for every screenshot.
\<close>

fun merge_subsequent :: "game_data list \<Rightarrow> entry list \<times> int \<Rightarrow> entry list \<times> int" where
  "merge_subsequent [] st = st"
| "merge_subsequent (parsed_data # later) (merged_results, current_max_position) =
     (let new_results = results parsed_data;
          existing_names = set (map (\<lambda>e. lower (fst e)) merged_results);
          (merged_results', existing_names', current_max_position') =
             merge_new_results new_results (merged_results, existing_names, current_max_position)
      in merge_subsequent later (merged_results', current_max_position'))"

text \<open>
  \<^verbatim>\<open>merge_screenshot_data\<close>. On the empty list \<^verbatim>\<open>parsed_data_list[0]\<close> raises
  \<^verbatim>\<open>IndexError\<close>.
\<close>

definition merge_screenshot_data :: "game_data list \<Rightarrow> py_error + game_data" where
  "merge_screenshot_data parsed_data_list =
     (case parsed_data_list of
        [] \<Rightarrow> Inl IndexError
      | first # rest \<Rightarrow>
          if length parsed_data_list = 1 then Inr first
          else
            let merged_results = results first;
                current_max_position = int (length merged_results);
                (merged_results', current_max_position') =
                   merge_subsequent rest (merged_results, current_max_position)
            in Inr \<lparr>total_players = int (length merged_results'), results = merged_results'\<rparr>)"

text \<open>
  The merger as the specification words it: the merged list starts as the first
  ranking's entries; an entry of a later ranking is skipped when its name already
  occurs case-insensitively in the merged list, and is otherwise appended with the
  position one above the highest position used so far.
\<close>

definition highest_position :: "entry list \<Rightarrow> int" where
  "highest_position es = fold max (map snd es) 0"

fun merge_entries_spec :: "entry list \<Rightarrow> entry list \<Rightarrow> entry list" where
  "merge_entries_spec merged [] = merged"
| "merge_entries_spec merged ((name, pos) # rest) =
     (if \<exists>e \<in> set merged. lower (fst e) = lower name
      then merge_entries_spec merged rest
      else merge_entries_spec (merged @ [(name, highest_position merged + 1)]) rest)"

definition merge_spec :: "game_data list \<Rightarrow> game_data" where
  "merge_spec rankings =
     (if length rankings = 1 then hd rankings
      else let merged = fold (\<lambda>r merged. merge_entries_spec merged (results r))
                          (tl rankings) (results (hd rankings))
           in \<lparr>total_players = int (length merged), results = merged\<rparr>)"

subsection \<open>The bounty ledger\<close>

text \<open>
  The global \<^verbatim>\<open>bounty_board\<close> dictionary, the global \<^verbatim>\<open>last_game_data\<close> and the
  contents of the JSON file written by \<^verbatim>\<open>save_bounty_board\<close>.
\<close>

type_synonym board = "string \<rightharpoonup> int"

record bot_state =
  bounty_board :: board
  last_game_data :: "game_data option"
  db_file :: board

text \<open>
  The loop of \<^verbatim>\<open>update_bounty_board\<close>. When \<^verbatim>\<open>calculate_bounty\<close> raises, the loop
  stops and the board keeps the entries already added.
\<close>

fun add_bounties :: "int \<Rightarrow> entry list \<Rightarrow> board \<Rightarrow> (py_error \<times> board) + board" where
  "add_bounties n [] board = Inr board"
| "add_bounties n ((player_name, position) # rest) board =
     (let is_winner = (position = 1)
      in case calculate_bounty position n is_winner of
           Inl err \<Rightarrow> Inl (err, board)
         | Inr bounty \<Rightarrow>
             add_bounties n rest
               (case board player_name of
                  Some current \<Rightarrow> board(player_name \<mapsto> current + bounty)
                | None \<Rightarrow> board(player_name \<mapsto> bounty)))"

definition update_bounty_board :: "game_data \<Rightarrow> bot_state \<Rightarrow> (py_error \<times> bot_state) + bot_state" where
  "update_bounty_board parsed_data st =
     (let st1 = st\<lparr>last_game_data := Some parsed_data\<rparr>
      in case add_bounties (total_players parsed_data) (results parsed_data) (bounty_board st1) of
           Inl (err, board) \<Rightarrow> Inl (err, st1\<lparr>bounty_board := board\<rparr>)
         | Inr board \<Rightarrow> Inr (st1\<lparr>bounty_board := board, db_file := board\<rparr>))"

text \<open>
  The revert loop of \<^verbatim>\<open>PlayerRemovalView.done_editing\<close>: the bounty is recomputed
  from the game's own \<^verbatim>\<open>total_players\<close> and subtracted when the name is a key of the
  board; a total that becomes zero is deleted.
\<close>

fun revert_bounties :: "int \<Rightarrow> entry list \<Rightarrow> board \<Rightarrow> (py_error \<times> board) + board" where
  "revert_bounties n [] board = Inr board"
| "revert_bounties n ((player_name, position) # rest) board =
     (let is_winner = (position = 1)
      in case calculate_bounty position n is_winner of
           Inl err \<Rightarrow> Inl (err, board)
         | Inr bounty \<Rightarrow>
             revert_bounties n rest
               (case board player_name of
                  Some current \<Rightarrow>
                    if current - bounty = 0 then board(player_name := None)
                    else board(player_name \<mapsto> current - bounty)
                | None \<Rightarrow> board))"

text \<open>The filtered and renumbered results that \<^verbatim>\<open>done_editing\<close> builds.\<close>

definition corrected_game :: "game_data \<Rightarrow> string list \<Rightarrow> game_data" where
  "corrected_game game removed_players =
     (let filtered_results = filter (\<lambda>(name, pos). name \<notin> set removed_players) (results game);
          new_results = map (\<lambda>(idx, (name, pos)). (name, int idx + 1))
                          (enumerate 0 filtered_results)
      in \<lparr>total_players = int (length new_results), results = new_results\<rparr>)"

text \<open>
  \<^verbatim>\<open>PlayerRemovalView.done_editing\<close> on the view's \<^verbatim>\<open>game_data\<close> and
  \<^verbatim>\<open>removed_players\<close>. With nothing selected it only edits the message and returns.
\<close>

definition done_editing ::
  "game_data \<Rightarrow> string list \<Rightarrow> bot_state \<Rightarrow> (py_error \<times> bot_state) + bot_state" where
  "done_editing game removed_players st =
     (if removed_players = [] then Inr st
      else case revert_bounties (total_players game) (results game) (bounty_board st) of
             Inl (err, board) \<Rightarrow> Inl (err, st\<lparr>bounty_board := board\<rparr>)
           | Inr board \<Rightarrow>
               update_bounty_board (corrected_game game removed_players)
                 (st\<lparr>bounty_board := board\<rparr>))"

subsection \<open>String helpers of the parser\<close>

text \<open>\<^verbatim>\<open>text.split(sep)\<close> with a one-character separator: empty pieces are kept.\<close>

fun split_on :: "char \<Rightarrow> string \<Rightarrow> string list" where
  "split_on sep [] = [Nil]"
| "split_on sep (c # cs) =
     (if c = sep then [] # split_on sep cs
      else (case split_on sep cs of
              [] \<Rightarrow> [c] # []
            | piece # pieces \<Rightarrow> (c # piece) # pieces))"

text \<open>\<^verbatim>\<open>s.strip()\<close>.\<close>

definition strip :: "string \<Rightarrow> string" where
  "strip s = rev (dropWhile isspace (rev (dropWhile isspace s)))"

text \<open>
  \<^verbatim>\<open>s.split()\<close>: the maximal runs of non-whitespace characters. The scan carries the
  current run, reversed.
\<close>

fun split_ws_scan :: "string \<Rightarrow> string \<Rightarrow> string list" where
  "split_ws_scan cur [] = (if cur = [] then [] else [rev cur])"
| "split_ws_scan cur (c # cs) =
     (if isspace c
      then (if cur = [] then split_ws_scan [] cs else rev cur # split_ws_scan [] cs)
      else split_ws_scan (c # cur) cs)"

definition split_ws :: "string \<Rightarrow> string list" where
  "split_ws s = split_ws_scan [] s"

text \<open>\<^verbatim>\<open>' '.join(words)\<close>.\<close>

fun join_space :: "string list \<Rightarrow> string" where
  "join_space [] = []"
| "join_space [w] = w"
| "join_space (w # v # ws) = w @ CHR '' '' # join_space (v # ws)"

text \<open>
  \<^verbatim>\<open>clean_player_name\<close>: \<^verbatim>\<open>re.sub(r'[^\w\s-]', '', name)\<close>, then
  \<^verbatim>\<open>' '.join(name.split())\<close>, then \<^verbatim>\<open>strip()\<close>.
\<close>

definition clean_player_name :: "string \<Rightarrow> string" where
  "clean_player_name name =
     strip (join_space (split_ws
       (filter (\<lambda>c. is_word_char c \<or> isspace c \<or> c = CHR ''-'') name)))"

text \<open>
  \<^verbatim>\<open>re.match(r'^[A-Za-z][A-Za-z0-9_]*$', s)\<close>; the \<^verbatim>\<open>$\<close> of Python also matches just
  before one trailing line feed.
\<close>

definition match_username :: "string \<Rightarrow> bool" where
  "match_username s =
     (case s of
        [] \<Rightarrow> False
      | c # cs \<Rightarrow>
          is_letter c \<and>
          (list_all is_word_char cs
           \<or> (cs \<noteq> [] \<and> last cs = CHR 0x0A \<and> list_all is_word_char (butlast cs))))"

text \<open>
  \<^verbatim>\<open>re.findall(r'[A-Za-z][A-Za-z0-9_]{2,}', line)\<close>: scanning from the left, a letter
  followed by at least two word characters starts a match, which takes the whole run;
  the scan resumes after the match.
\<close>

function findall_names :: "string \<Rightarrow> string list" where
  "findall_names [] = []"
| "findall_names (c # cs) =
     (if is_letter c \<and> length (takeWhile is_word_char cs) \<ge> 2
      then (c # takeWhile is_word_char cs) # findall_names (dropWhile is_word_char cs)
      else findall_names cs)"
  by pat_completeness auto
termination
  by (relation "measure length") (auto simp: length_dropWhile_le less_Suc_eq_le)

subsection \<open>Screenshot parser\<close>

definition header_keywords :: "string list" where
  "header_keywords = [''place'', ''player'', ''time'', ''points'', ''damage'',
                      ''wins'', ''races'', ''elimination'', ''name'']"

definition ignore_words :: "string list" where
  "ignore_words = [''even'', ''dltc'', ''def'', ''juaz'', ''dne'']"

definition placement_indicators :: "string list" where
  "placement_indicators = [''1ST'', ''2ND'', ''3RD'', ''DNF'', ''IST'']"

text \<open>\<^verbatim>\<open>any(p[0].lower() == name.lower() for p in results)\<close>.\<close>

definition already_listed :: "entry list \<Rightarrow> string \<Rightarrow> bool" where
  "already_listed rs name = list_ex (\<lambda>p. lower (fst p) = lower name) rs"

text \<open>
  The cleaned lines: every piece of \<^verbatim>\<open>text.split('\n')\<close> is stripped and kept when it
  is longer than two characters.
\<close>

definition clean_lines_of :: "string \<Rightarrow> string list" where
  "clean_lines_of text = filter (\<lambda>line. line \<noteq> [] \<and> length line > 2)
                           (map strip (split_on (CHR 0x0A) text))"

text \<open>
  The token loop of the strict pass: the first token that is not a placement
  indicator, a header word or an ignored artefact and that looks like a user name.
  The result \<open>None\<close> is Python's \<^verbatim>\<open>player_name = None\<close>.
\<close>

fun find_player_name :: "string list \<Rightarrow> string option" where
  "find_player_name [] = None"
| "find_player_name (token # tokens) =
     (let token_clean = filter is_word_char token
      in if upper token \<in> set placement_indicators then find_player_name tokens
         else if fuzzy_match_any token_clean header_keywords then find_player_name tokens
         else if lower token_clean \<in> set ignore_words then find_player_name tokens
         else if match_username token_clean \<and> length token_clean \<ge> 3
              then Some (clean_player_name token_clean)
         else find_player_name tokens)"

text \<open>
  The strict pass over the cleaned lines, with the state \<^verbatim>\<open>results\<close> and
  \<^verbatim>\<open>position\<close>. The flag \<^verbatim>\<open>header_found\<close> is written but never read and is left
  out.
\<close>

fun strict_pass :: "string list \<Rightarrow> entry list \<times> int \<Rightarrow> entry list \<times> int" where
  "strict_pass [] st = st"
| "strict_pass (line # lines) (rs, position) =
     (if fuzzy_match_any line [''place'', ''player''] then strict_pass lines (rs, position)
      else if fuzzy_match_any line header_keywords \<and> \<not> list_ex isdigit line
           then strict_pass lines (rs, position)
      else (case find_player_name (split_ws line) of
              None \<Rightarrow> strict_pass lines (rs, position)
            | Some player_name \<Rightarrow>
                if player_name \<noteq> [] \<and> length player_name \<ge> 3
                   \<and> \<not> already_listed rs player_name
                then strict_pass lines (rs @ [(player_name, position + 1)], position + 1)
                else strict_pass lines (rs, position)))"

text \<open>
  The name loop of the aggressive pass: the first candidate of the line that is not
  a header word, an ignored artefact or a duplicate.
\<close>

fun first_new_name :: "string list \<Rightarrow> entry list \<Rightarrow> string option" where
  "first_new_name [] rs = None"
| "first_new_name (name # names) rs =
     (if fuzzy_match_any name header_keywords then first_new_name names rs
      else if lower name \<in> set ignore_words then first_new_name names rs
      else if already_listed rs name then first_new_name names rs
      else Some name)"

fun aggressive_pass :: "string list \<Rightarrow> entry list \<times> int \<Rightarrow> entry list \<times> int" where
  "aggressive_pass [] st = st"
| "aggressive_pass (line # lines) (rs, position) =
     (if fuzzy_match_any line [''place'', ''player''] then aggressive_pass lines (rs, position)
      else (case first_new_name (findall_names line) rs of
              None \<Rightarrow> aggressive_pass lines (rs, position)
            | Some name \<Rightarrow>
                aggressive_pass lines (rs @ [(name, position + 1)], position + 1)))"

text \<open>\<^verbatim>\<open>parse_marbles_screenshot\<close>; \<open>None\<close> is Python's \<^verbatim>\<open>None\<close>.\<close>

definition parse_marbles_screenshot :: "string \<Rightarrow> game_data option" where
  "parse_marbles_screenshot text =
     (let clean_lines = clean_lines_of text;
          rs = fst (strict_pass clean_lines ([], 0));
          rs = (if length rs < 2 then fst (aggressive_pass clean_lines ([], 0)) else rs)
      in if rs = [] then None
         else Some \<lparr>total_players = int (length rs), results = rs\<rparr>)"

subsection \<open>Submission\<close>

text \<open>
  The body of \<^verbatim>\<open>submit_marbles\<close> on the OCR texts of the screenshots that could be
  downloaded: a text that is empty or does not parse is skipped; with nothing parsed
  the command reports the failure and returns; otherwise the rankings are merged when
  there are several, and the ledger is updated. An exception is caught at the end of
  the command and reported; the state is then as the exception left it.
\<close>

fun collect_parsed :: "string list \<Rightarrow> game_data list" where
  "collect_parsed [] = []"
| "collect_parsed (ocr_text # rest) =
     (if ocr_text = [] then collect_parsed rest
      else (case parse_marbles_screenshot ocr_text of
              None \<Rightarrow> collect_parsed rest
            | Some parsed_data \<Rightarrow> parsed_data # collect_parsed rest))"

definition submit_marbles :: "string list \<Rightarrow> bot_state \<Rightarrow> (py_error \<times> bot_state) + bot_state" where
  "submit_marbles ocr_texts st =
     (let all_parsed_data = collect_parsed ocr_texts
      in if all_parsed_data = [] then Inr st
         else if length all_parsed_data > 1
              then (case merge_screenshot_data all_parsed_data of
                      Inl err \<Rightarrow> Inl (err, st)
                    | Inr merged_data \<Rightarrow> update_bounty_board merged_data st)
         else update_bounty_board (hd all_parsed_data) st)"

subsection \<open>Auxiliary notions and example data\<close>

text \<open>The lower-cased names of a list of entries.\<close>

definition names_set :: "entry list \<Rightarrow> string set" where
  "names_set es = set (map (\<lambda>e. lower (fst e)) es)"

text \<open>The loop invariant of both parser passes on \<^verbatim>\<open>results\<close> and \<^verbatim>\<open>position\<close>.\<close>

definition acc_ok :: "entry list \<times> int \<Rightarrow> bool" where
  "acc_ok st = (positions_contiguous (fst st) \<and> names_unique (fst st)
                 \<and> snd st = int (length (fst st)))"

text \<open>The specified merge of the later rankings into a merged list.\<close>

definition merge_fold :: "game_data list \<Rightarrow> entry list \<Rightarrow> entry list" where
  "merge_fold rs merged = fold (\<lambda>r merged. merge_entries_spec merged (results r)) rs merged"

definition ranking1 :: game_data where
  "ranking1 = \<lparr>total_players = 2, results = [(''alice'', 1), (''bob'', 2)]\<rparr>"

definition ranking2 :: game_data where
  "ranking2 = \<lparr>total_players = 2, results = [(''bob'', 1), (''carol'', 2)]\<rparr>"

definition robustness_line :: string where
  "robustness_line = ''1ST TIME 00:12 Pl4yer0ne''"

definition noise_text :: string where
  "noise_text = ''?? !! 12:34 -- ##''"

text \<open>The state of a bot that starts without a stored board.\<close>

definition initial_state :: bot_state where
  "initial_state = \<lparr>bounty_board = Map.empty, last_game_data = None, db_file = Map.empty\<rparr>"

subsection \<open>Auxiliary notions for the ledger\<close>

text \<open>The bounty of a position when \<^verbatim>\<open>calculate_bounty\<close> returns, and 0 when it raises.\<close>

definition bounty_of :: "int \<Rightarrow> int \<Rightarrow> int" where
  "bounty_of n position =
     (case calculate_bounty position n (position = 1) of Inl err \<Rightarrow> 0 | Inr bounty \<Rightarrow> bounty)"

text \<open>Every entry's bounty can be computed without an exception.\<close>

definition scores_ok :: "int \<Rightarrow> entry list \<Rightarrow> bool" where
  "scores_ok n es = list_all (\<lambda>e. \<exists>b. calculate_bounty (snd e) n (snd e = 1) = Inr b) es"

text \<open>The board, and the board of the state, that a loop or a command leaves behind, raised or not.\<close>

definition board_after :: "(py_error \<times> board) + board \<Rightarrow> board" where
  "board_after r = (case r of Inl (err, board) \<Rightarrow> board | Inr board \<Rightarrow> board)"

definition state_board :: "(py_error \<times> bot_state) + bot_state \<Rightarrow> board" where
  "state_board r = bounty_board (case r of Inl (err, st) \<Rightarrow> st | Inr st \<Rightarrow> st)"

text \<open>
  The corrected ranking as the specification words it: the names not to be removed, in
  their original order, numbered from 1; and the correction workflow as specified:
  revert the last ranking, then apply the corrected one.
\<close>

definition corrected_spec :: "game_data \<Rightarrow> string list \<Rightarrow> game_data" where
  "corrected_spec game names_to_remove =
     (let kept = filter (\<lambda>name. name \<notin> set names_to_remove) (map fst (results game))
      in \<lparr>total_players = int (length kept),
          results = zip kept (map (\<lambda>i. int i + 1) [0..<length kept])\<rparr>)"

definition correction_spec ::
  "game_data \<Rightarrow> string list \<Rightarrow> bot_state \<Rightarrow> (py_error \<times> bot_state) + bot_state" where
  "correction_spec game names_to_remove st =
     (case revert_bounties (total_players game) (results game) (bounty_board st) of
        Inl (err, board) \<Rightarrow> Inl (err, st\<lparr>bounty_board := board\<rparr>)
      | Inr board \<Rightarrow>
          update_bounty_board (corrected_spec game names_to_remove)
            (st\<lparr>bounty_board := board\<rparr>))"

text \<open>The command \<^verbatim>\<open>reset_bounties\<close>: the board is emptied and saved.\<close>

definition reset_slash :: "bot_state \<Rightarrow> bot_state" where
  "reset_slash st = st\<lparr>bounty_board := Map.empty, db_file := Map.empty\<rparr>"

text \<open>Example states: after submitting \<open>ranking1\<close> to a fresh bot, that state after a
  reset, and a board with three players.\<close>

definition after_submit :: bot_state where
  "after_submit = \<lparr>bounty_board = [''alice'' \<mapsto> 220, ''bob'' \<mapsto> 0],
                    last_game_data = Some ranking1,
                    db_file = [''alice'' \<mapsto> 220, ''bob'' \<mapsto> 0]\<rparr>"

definition after_reset :: bot_state where
  "after_reset = \<lparr>bounty_board = Map.empty, last_game_data = Some ranking1, db_file = Map.empty\<rparr>"

definition sample_state :: bot_state where
  "sample_state = \<lparr>bounty_board = [''alice'' \<mapsto> 0, ''bob'' \<mapsto> 50, ''Carol'' \<mapsto> 7],
                    last_game_data = None,
                    db_file = [''alice'' \<mapsto> 0, ''bob'' \<mapsto> 50, ''Carol'' \<mapsto> 7]\<rparr>"

section \<open>Verification\<close>

subsection \<open>The normalizer and the fuzzy matcher\<close>

lemma startswith_iff: "startswith s p \<longleftrightarrow> (\<exists>ss. s = p @ ss)"
  by (induction s p rule: startswith.induct) auto

lemma str_contains_iff: "str_contains needle hay \<longleftrightarrow> (\<exists>ps ss. hay = ps @ needle @ ss)"
proof (induction hay)
  case Nil
  then show ?case by auto
next
  case (Cons c cs)
  show ?case
  proof
    assume "str_contains needle (c # cs)"
    then consider "startswith (c # cs) needle" | "str_contains needle cs" by auto
    then show "\<exists>ps ss. c # cs = ps @ needle @ ss"
    proof cases
      case 1
      then obtain ss where "c # cs = needle @ ss" by (auto simp: startswith_iff)
      then have "c # cs = [] @ needle @ ss" by simp
      then show ?thesis by blast
    next
      case 2
      then obtain ps ss where "cs = ps @ needle @ ss" using Cons.IH by blast
      then have "c # cs = (c # ps) @ needle @ ss" by simp
      then show ?thesis by blast
    qed
  next
    assume "\<exists>ps ss. c # cs = ps @ needle @ ss"
    then obtain ps ss where eq: "c # cs = ps @ needle @ ss" by blast
    show "str_contains needle (c # cs)"
    proof (cases ps)
      case Nil
      then have "startswith (c # cs) needle" using eq by (auto simp: startswith_iff)
      then show ?thesis by simp
    next
      case (Cons p ps')
      then have "cs = ps' @ needle @ ss" using eq by simp
      then have "str_contains needle cs" using Cons.IH by blast
      then show ?thesis by simp
    qed
  qed
qed

lemma of_char_less_256: "(of_char c :: nat) < 256"
  by (cases c) (simp add: of_char_def)

lemma lower_char_not_upper: "\<not> is_upper (lower_char c)"
  using of_char_less_256 [of c] by (auto simp: lower_char_def is_upper_def)

lemma lower_char_idem: "lower_char (lower_char c) = lower_char c"
  using lower_char_not_upper [of c] by (simp add: lower_char_def [of "lower_char c"])






lemma fuzzy_Tlme_time: "fuzzy_match_keyword ''Tlme'' ''time''"
  by code_simp

lemma fuzzy_P0ints_points: "fuzzy_match_keyword ''P0ints'' ''points''"
  by code_simp

text \<open>
  C7. For all strings, \<^verbatim>\<open>fuzzy_match_keyword(text, keyword)\<close> is true exactly when
  the normalized keyword occurs as a contiguous substring of the normalized text; it
  is true for ("Tlme", "time") and for ("P0ints", "points").
\<close>

theorem fuzzy_match_keyword_substring:
  "(fuzzy_match_keyword text keyword \<longleftrightarrow>
      (\<exists>ps ss. normalize_ocr_text text = ps @ normalize_ocr_text keyword @ ss))
   \<and> fuzzy_match_keyword ''Tlme'' ''time''
   \<and> fuzzy_match_keyword ''P0ints'' ''points''"
  using fuzzy_Tlme_time fuzzy_P0ints_points
  by (simp add: fuzzy_match_keyword_def Let_def str_contains_iff)

subsection \<open>Double rounding: exactness and absence of overflow\<close>

lemma bit_length_nonneg: "0 \<le> bit_length n"
  by (induction n rule: bit_length.induct) (simp add: bit_length.simps)

lemma bit_length_le_iff: "0 \<le> w \<Longrightarrow> bit_length n \<le> w \<longleftrightarrow> n < 2 ^ nat w"
proof (induction n arbitrary: w rule: bit_length.induct)
  case (1 n)
  show ?case
  proof (cases "n \<le> 0")
    case True
    have "(0::int) < 2 ^ nat w" by simp
    with True have "n < 2 ^ nat w" by linarith
    with True "1.prems" show ?thesis by (simp add: bit_length.simps)
  next
    case False
    note pos = this
    show ?thesis
    proof (cases "w = 0")
      case True
      with pos bit_length_nonneg [of "n div 2"] show ?thesis
        by (simp add: bit_length.simps [of n])
    next
      case False
      with "1.prems" have w: "0 \<le> w - 1" by simp
      have p: "(2::int) ^ nat w = 2 * 2 ^ nat (w - 1)"
        using False "1.prems" by (metis Suc_nat_eq_nat_zadd1 add.commute diff_add_cancel power_Suc w)
      have "bit_length n \<le> w \<longleftrightarrow> bit_length (n div 2) \<le> w - 1"
        using pos by (simp add: bit_length.simps [of n]) linarith
      also have "\<dots> \<longleftrightarrow> n div 2 < 2 ^ nat (w - 1)"
        using "1.IH" [OF pos w] .
      also have "\<dots> \<longleftrightarrow> n < 2 ^ nat w"
        unfolding p by linarith
      finally show ?thesis .
    qed
  qed
qed

lemma bit_length_leI: "0 \<le> w \<Longrightarrow> n < 2 ^ nat w \<Longrightarrow> bit_length n \<le> w"
  by (simp add: bit_length_le_iff)

lemma bit_length_bound: "n < 2 ^ nat (bit_length n)"
  using bit_length_le_iff [of "bit_length n" n] bit_length_nonneg [of n] by simp



lemma round_double_exact:
  assumes "\<bar>m\<bar> < 2 ^ 53" "- 1074 \<le> e" "e \<le> 971"
  shows "round_double (m, e) = Inr (m, e)"
proof -
  have "bit_length \<bar>m\<bar> \<le> 53"
    using assms(1) bit_length_le_iff [of 53 "\<bar>m\<bar>"] by simp
  then show ?thesis
    using assms(2,3) by (simp add: round_double_def Let_def)
qed

lemma round_half_even_cases:
  "round_half_even m k = m div 2 ^ k \<or> round_half_even m k = m div 2 ^ k + 1"
  by (simp add: round_half_even_def Let_def)

lemma int_div_less: "(0::int) < b \<Longrightarrow> m < c * b \<Longrightarrow> m div b < c"
proof -
  assume b: "0 < b" and m: "m < c * b"
  have "m = (m div b) * b + m mod b" by simp
  moreover have "0 \<le> m mod b" using b by simp
  ultimately have "(m div b) * b \<le> m" by linarith
  with m have "(m div b) * b < c * b" by linarith
  with b show ?thesis by simp
qed
lemma int_le_div: "(0::int) < b \<Longrightarrow> c * b \<le> m \<Longrightarrow> c \<le> m div b"
proof -
  assume b: "0 < b" and m: "c * b \<le> m"
  have "m = (m div b) * b + m mod b" by simp
  moreover have "m mod b < b" using b by simp
  moreover have "(m div b + 1) * b = (m div b) * b + b" by (simp add: algebra_simps)
  ultimately have "m < (m div b + 1) * b" by linarith
  with m have "c * b < (m div b + 1) * b" by linarith
  with b have "c < m div b + 1" by simp
  then show ?thesis by simp
qed

lemma round_half_even_bound:
  assumes "\<bar>m\<bar> < 2 ^ (j + k)"
  shows "\<bar>round_half_even m k\<bar> \<le> 2 ^ j"
proof -
  have p: "(2::int) ^ (j + k) = 2 ^ j * 2 ^ k" by (simp add: power_add)
  have pos: "(0::int) < 2 ^ k" by simp
  have "m < 2 ^ j * 2 ^ k" using assms p by linarith
  then have up: "m div 2 ^ k < 2 ^ j"
    using pos by (rule int_div_less [rotated])
  have "- (2 ^ j) * 2 ^ k \<le> m" using assms p by simp
  then have lo: "- (2 ^ j) \<le> m div 2 ^ k"
    using pos by (rule int_le_div [rotated])
  from up lo round_half_even_cases [of m k] show ?thesis by linarith
qed


lemma round_double_total:
  assumes e: "- 1074 \<le> snd x" and mg: "mag x \<le> 1023"
  shows "\<exists>y. round_double x = Inr y \<and> mag y \<le> mag x + 1 \<and> snd x \<le> snd y"
proof -
  obtain m ex where x: "x = (m, ex)" by (cases x)
  define bl where "bl = bit_length \<bar>m\<bar>"
  define k where "k = max (bl - 53) (- 1074 - ex)"
  have rd: "round_double (m, ex) =
      (if k \<le> 0 then (if bl + ex > 1024 then Inl OverflowError else Inr (m, ex))
       else (if bit_length \<bar>round_half_even m (nat k)\<bar> + (ex + k) > 1024
             then Inl OverflowError else Inr (round_half_even m (nat k), ex + k)))"
    by (simp add: round_double_def Let_def k_def bl_def)
  show ?thesis
  proof (cases "k \<le> 0")
    case True
    then have "round_double x = Inr x"
      using mg by (simp add: rd x bl_def mag_def)
    then show ?thesis by simp
  next
    case False
    then have k: "k = bl - 53" "0 < k" using e by (auto simp: k_def x)
    define m' where "m' = round_half_even m (nat k)"
    have "\<bar>m\<bar> < 2 ^ nat bl" unfolding bl_def by (rule bit_length_bound)
    moreover have "nat bl = 53 + nat k" using k by simp
    ultimately have "\<bar>m\<bar> < 2 ^ (53 + nat k)" by simp
    then have "\<bar>m'\<bar> \<le> 2 ^ 53" unfolding m'_def by (rule round_half_even_bound)
    then have "\<bar>m'\<bar> < 2 ^ nat 54" by simp
    then have bl': "bit_length \<bar>m'\<bar> \<le> 54" by (simp add: bit_length_le_iff)
    have mx: "mag x = bl + ex" by (simp add: mag_def x bl_def)
    have "bit_length \<bar>m'\<bar> + (ex + k) \<le> 1024" using bl' mx mg k by linarith
    then have "round_double x = Inr (m', ex + k)"
      using False by (simp add: rd m'_def x)
    moreover have "mag (m', ex + k) \<le> mag x + 1" using bl' mx k by (simp add: mag_def)
    moreover have "snd x \<le> snd (m', ex + k)" using k by (simp add: x)
    ultimately show ?thesis by blast
  qed
qed

lemma mag_int: "\<bar>n\<bar> < 2 ^ nat w \<Longrightarrow> 0 \<le> w \<Longrightarrow> mag (n, e) \<le> w + e"
  by (simp add: mag_def bit_length_le_iff)

lemma abs_less_pow_mag: "\<bar>fst x\<bar> < 2 ^ nat (mag x - snd x)"
  using bit_length_bound [of "\<bar>fst x\<bar>"] by (simp add: mag_def)












lemma abs_less_of_mag:
  assumes "mag x \<le> w"
  shows "\<bar>fst x\<bar> < 2 ^ nat (w - snd x)"
proof -
  have "bit_length \<bar>fst x\<bar> \<le> w - snd x" using assms by (simp add: mag_def)
  moreover have "0 \<le> w - snd x"
    using assms bit_length_nonneg [of "\<bar>fst x\<bar>"] by (simp add: mag_def)
  ultimately show ?thesis by (simp add: bit_length_le_iff)
qed

lemma scaled_abs_less:
  assumes "mag x \<le> w" "e \<le> snd x"
  shows "\<bar>fst x * 2 ^ nat (snd x - e)\<bar> < 2 ^ nat (w - e)"
proof -
  have le: "snd x \<le> w" using assms(1) bit_length_nonneg [of "\<bar>fst x\<bar>"] by (simp add: mag_def)
  have "\<bar>fst x\<bar> * 2 ^ nat (snd x - e) < 2 ^ nat (w - snd x) * 2 ^ nat (snd x - e)"
    using abs_less_of_mag [OF assms(1)] by simp
  also have "\<dots> = 2 ^ (nat (w - snd x) + nat (snd x - e))" by (simp add: power_add)
  also have "nat (w - snd x) + nat (snd x - e) = nat (w - e)" using le assms(2) by simp
  finally show ?thesis by (simp add: abs_mult)
qed

lemma float_sub_total:
  assumes "- 1074 \<le> snd x" "- 1074 \<le> snd y" "mag x \<le> w" "mag y \<le> w" "w \<le> 1022"
  shows "\<exists>z. float_sub x y = Inr z \<and> mag z \<le> w + 2 \<and> min (snd x) (snd y) \<le> snd z"
proof -
  define e where "e = min (snd x) (snd y)"
  define A where "A = fst x * 2 ^ nat (snd x - e)"
  define B where "B = fst y * 2 ^ nat (snd y - e)"
  have ew: "e \<le> w" using assms(3) bit_length_nonneg [of "\<bar>fst x\<bar>"] by (simp add: mag_def e_def)
  have "\<bar>A\<bar> < 2 ^ nat (w - e)" unfolding A_def by (rule scaled_abs_less [OF assms(3)]) (simp add: e_def)
  moreover have "\<bar>B\<bar> < 2 ^ nat (w - e)" unfolding B_def by (rule scaled_abs_less [OF assms(4)]) (simp add: e_def)
  ultimately have "\<bar>A - B\<bar> < 2 * 2 ^ nat (w - e)" by linarith
  also have "\<dots> = 2 ^ nat (w - e + 1)" using ew by (simp add: nat_add_distrib)
  finally have "mag (A - B, e) \<le> (w - e + 1) + e" using ew by (intro mag_int) simp_all
  then have m: "mag (A - B, e) \<le> 1023" "mag (A - B, e) \<le> w + 1" using assms(5) by simp_all
  have "- 1074 \<le> snd (A - B, e)" using assms(1,2) by (simp add: e_def)
  from round_double_total [OF this m(1)] obtain z where
    z: "round_double (A - B, e) = Inr z" "mag z \<le> mag (A - B, e) + 1" "e \<le> snd z" by auto
  have "float_sub x y = round_double (A - B, e)"
    by (simp add: float_sub_def Let_def A_def B_def e_def)
  with z m(2) show ?thesis unfolding e_def by auto
qed

lemma float_mul_total:
  assumes "- 1074 \<le> snd x + snd y" "mag x \<le> a" "mag y \<le> b" "a + b \<le> 1023"
  shows "\<exists>z. float_mul x y = Inr z \<and> mag z \<le> a + b + 1 \<and> snd x + snd y \<le> snd z"
proof -
  have ax: "snd x \<le> a" using assms(2) bit_length_nonneg [of "\<bar>fst x\<bar>"] by (simp add: mag_def)
  have by': "snd y \<le> b" using assms(3) bit_length_nonneg [of "\<bar>fst y\<bar>"] by (simp add: mag_def)
  have "\<bar>fst x\<bar> * \<bar>fst y\<bar> < 2 ^ nat (a - snd x) * 2 ^ nat (b - snd y)"
    using abs_less_of_mag [OF assms(2)] abs_less_of_mag [OF assms(3)]
    by (intro mult_strict_mono) simp_all
  also have "\<dots> = 2 ^ (nat (a - snd x) + nat (b - snd y))" by (simp add: power_add)
  also have "nat (a - snd x) + nat (b - snd y) = nat (a + b - (snd x + snd y))"
    using ax by' by simp
  finally have "\<bar>fst x * fst y\<bar> < 2 ^ nat (a + b - (snd x + snd y))" by (simp add: abs_mult)
  then have "mag (fst x * fst y, snd x + snd y) \<le> (a + b - (snd x + snd y)) + (snd x + snd y)"
    using ax by' by (intro mag_int) simp_all
  then have m: "mag (fst x * fst y, snd x + snd y) \<le> 1023"
    "mag (fst x * fst y, snd x + snd y) \<le> a + b" using assms(4) by simp_all
  have "- 1074 \<le> snd (fst x * fst y, snd x + snd y)" using assms(1) by simp
  from round_double_total [OF this m(1)] obtain z where
    "round_double (fst x * fst y, snd x + snd y) = Inr z"
    "mag z \<le> mag (fst x * fst y, snd x + snd y) + 1" "snd x + snd y \<le> snd z" by auto
  with m(2) show ?thesis by (auto simp: float_mul_def)
qed

lemma calculate_bounty_total:
  assumes "\<bar>p\<bar> < 2 ^ 63" "\<bar>N\<bar> < 2 ^ 63"
  shows "\<exists>v. calculate_bounty p N w = Inr v"
proof -
  have "\<bar>N\<bar> < 2 ^ nat 63" using assms by simp
  then have "mag (N, - 1) \<le> 63 + (- 1)" by (intro mag_int) simp_all
  then have "mag (N, - 1) \<le> 1023" "mag (N, - 1) \<le> 62" by simp_all
  from round_double_total [OF _ this(1)] this(2) obtain half where
    half: "int_truediv_2 N = Inr half" "mag half \<le> 63" "- 1 \<le> snd half"
    by (auto simp: int_truediv_2_def)
  have "\<bar>N - p + 1\<bar> < 2 ^ nat 65" using assms by simp
  then have "mag (N - p + 1, 0) \<le> 65 + 0" by (intro mag_int) simp_all
  then have "mag (N - p + 1, 0) \<le> 1023" "mag (N - p + 1, 0) \<le> 65" by simp_all
  from round_double_total [OF _ this(1)] this(2) obtain ahead where
    ahead: "int_to_float (N - p + 1) = Inr ahead" "mag ahead \<le> 66" "0 \<le> snd ahead"
    by (auto simp: int_to_float_def)
  have "\<exists>z. float_sub ahead half = Inr z \<and> mag z \<le> 66 + 2 \<and> min (snd ahead) (snd half) \<le> snd z"
    using ahead half by (intro float_sub_total) simp_all
  then obtain diff where
    diff: "float_sub ahead half = Inr diff" "mag diff \<le> 68" "- 1 \<le> snd diff"
    using ahead(3) half(3) by auto
  have factor: "int_to_float PLACEMENT_FACTOR = Inr (20, 0)"
    unfolding int_to_float_def PLACEMENT_FACTOR_def by (intro round_double_exact) simp_all
  have "\<bar>20::int\<bar> < 2 ^ nat 5" by simp
  then have "mag (20, 0) \<le> 5 + 0" by (intro mag_int) simp_all
  then have "\<exists>z. float_mul diff (20, 0) = Inr z \<and> mag z \<le> 68 + 5 + 1 \<and> snd diff + snd (20::int, 0::int) \<le> snd z"
    using diff by (intro float_mul_total) simp_all
  then obtain pr where "float_mul diff (20, 0) = Inr pr" by auto
  then show ?thesis
    by (simp add: calculate_bounty_def placement_score_def err_bind_def half ahead diff factor Let_def)
qed


subsection \<open>The bounty calculator\<close>





subsection \<open>The merger\<close>

lemma positions_contiguous_Nil: "positions_contiguous []"
  by (simp add: positions_contiguous_def)

lemma positions_contiguous_snoc:
  "positions_contiguous (es @ [(n, p)]) \<longleftrightarrow> positions_contiguous es \<and> p = int (length es) + 1"
  by (auto simp: positions_contiguous_def)

lemma names_unique_snoc:
  "names_unique (es @ [(n, p)]) \<longleftrightarrow> names_unique es \<and> lower n \<notin> names_set es"
  by (auto simp: names_unique_def names_set_def)

lemma highest_position_snoc:
  "highest_position (es @ [(n, p)]) = max p (highest_position es)"
  by (simp add: highest_position_def)

lemma highest_position_nonneg: "0 \<le> highest_position es"
proof (induction es rule: rev_induct)
  case Nil
  then show ?case by (simp add: highest_position_def)
next
  case (snoc e es)
  then show ?case by (cases e) (simp add: highest_position_snoc)
qed

lemma highest_position_contiguous:
  "positions_contiguous es \<Longrightarrow> highest_position es = int (length es)"
proof (induction es rule: rev_induct)
  case Nil
  then show ?case by (simp add: highest_position_def)
next
  case (snoc e es)
  obtain n p where e: "e = (n, p)" by (cases e)
  from snoc.prems have "positions_contiguous es" "p = int (length es) + 1"
    by (simp_all add: e positions_contiguous_snoc)
  with snoc.IH show ?case by (simp add: e highest_position_snoc)
qed

lemma listed_iff_names_set:
  "(\<exists>e \<in> set merged. lower (fst e) = lower name) \<longleftrightarrow> lower name \<in> names_set merged"
  unfolding names_set_def set_map image_iff by (metis)

lemma merge_new_results_spec:
  assumes "positions_contiguous merged"
  shows "merge_new_results new (merged, names_set merged, int (length merged))
           = (merge_entries_spec merged new, names_set (merge_entries_spec merged new),
              int (length (merge_entries_spec merged new)))"
  using assms
proof (induction new arbitrary: merged)
  case Nil
  then show ?case by simp
next
  case (Cons e new)
  obtain name pos where e: "e = (name, pos)" by (cases e)
  show ?case
  proof (cases "lower name \<in> names_set merged")
    case True
    then show ?thesis
      using Cons.IH [OF Cons.prems] by (simp add: e listed_iff_names_set)
  next
    case False
    let ?m = "merged @ [(name, int (length merged) + 1)]"
    have pc: "positions_contiguous ?m"
      using Cons.prems by (simp add: positions_contiguous_snoc)
    have ns: "names_set ?m = insert (lower name) (names_set merged)"
      by (simp add: names_set_def)
    have len: "int (length ?m) = int (length merged) + 1" by simp
    have hp: "highest_position merged = int (length merged)"
      using Cons.prems by (rule highest_position_contiguous)
    have "merge_new_results (e # new) (merged, names_set merged, int (length merged))
        = merge_new_results new (?m, names_set ?m, int (length ?m))"
      using False by (simp only: e merge_new_results.simps Let_def ns len if_False)
    also have "\<dots> = (merge_entries_spec ?m new, names_set (merge_entries_spec ?m new),
              int (length (merge_entries_spec ?m new)))"
      by (rule Cons.IH [OF pc])
    also have "merge_entries_spec ?m new = merge_entries_spec merged (e # new)"
      using False by (simp add: e listed_iff_names_set hp)
    finally show ?thesis .
  qed
qed

lemma merge_entries_spec_props:
  assumes "positions_contiguous merged"
  shows "positions_contiguous (merge_entries_spec merged new)
    \<and> (names_unique merged \<longrightarrow> names_unique (merge_entries_spec merged new))
    \<and> (\<exists>added. merge_entries_spec merged new = merged @ added)"
  using assms
proof (induction new arbitrary: merged)
  case Nil
  then show ?case by simp
next
  case (Cons e new)
  obtain name pos where e: "e = (name, pos)" by (cases e)
  show ?case
  proof (cases "lower name \<in> names_set merged")
    case True
    then show ?thesis
      using Cons.IH [OF Cons.prems] by (simp add: e listed_iff_names_set)
  next
    case False
    let ?m = "merged @ [(name, int (length merged) + 1)]"
    have pc: "positions_contiguous ?m"
      using Cons.prems by (simp add: positions_contiguous_snoc)
    have hp: "highest_position merged = int (length merged)"
      using Cons.prems by (rule highest_position_contiguous)
    have eq: "merge_entries_spec merged (e # new) = merge_entries_spec ?m new"
      using False by (simp add: e listed_iff_names_set hp)
    have nu: "names_unique merged \<longrightarrow> names_unique ?m"
      using False by (simp add: names_unique_snoc)
    from Cons.IH [OF pc] nu show ?thesis
      unfolding eq by auto
  qed
qed


lemma merge_fold_props:
  assumes "positions_contiguous merged"
  shows "positions_contiguous (merge_fold rs merged)
    \<and> (names_unique merged \<longrightarrow> names_unique (merge_fold rs merged))
    \<and> (\<exists>added. merge_fold rs merged = merged @ added)"
  using assms
proof (induction rs arbitrary: merged)
  case Nil
  then show ?case by (simp add: merge_fold_def)
next
  case (Cons r rs)
  let ?m = "merge_entries_spec merged (results r)"
  from merge_entries_spec_props [OF Cons.prems, of "results r"]
  have pc: "positions_contiguous ?m"
    and nu: "names_unique merged \<longrightarrow> names_unique ?m"
    and pre: "\<exists>added. ?m = merged @ added" by blast+
  have eq: "merge_fold (r # rs) merged = merge_fold rs ?m" by (simp add: merge_fold_def)
  from Cons.IH [OF pc] nu pre show ?case
    unfolding eq by (metis append.assoc)
qed

lemma merge_subsequent_spec:
  assumes "positions_contiguous merged"
  shows "merge_subsequent rs (merged, int (length merged))
           = (merge_fold rs merged, int (length (merge_fold rs merged)))"
  using assms
proof (induction rs arbitrary: merged)
  case Nil
  then show ?case by (simp add: merge_fold_def)
next
  case (Cons r rs)
  let ?m = "merge_entries_spec merged (results r)"
  have pc: "positions_contiguous ?m"
    using merge_entries_spec_props [OF Cons.prems, of "results r"] by blast
  have "merge_subsequent (r # rs) (merged, int (length merged))
      = merge_subsequent rs (?m, int (length ?m))"
    using merge_new_results_spec [OF Cons.prems, of "results r"]
    by (simp add: Let_def names_set_def)
  also have "\<dots> = (merge_fold rs ?m, int (length (merge_fold rs ?m)))"
    by (rule Cons.IH [OF pc])
  also have "merge_fold rs ?m = merge_fold (r # rs) merged" by (simp add: merge_fold_def)
  finally show ?case .
qed

lemma merge_screenshot_data_single: "merge_screenshot_data [r] = Inr r"
  by (simp add: merge_screenshot_data_def)

lemma merge_spec_single: "merge_spec [r] = r"
  by (simp add: merge_spec_def)

lemma merge_screenshot_data_refines:
  assumes "positions_contiguous (results first)"
  shows "merge_screenshot_data (first # rest) = Inr (merge_spec (first # rest))"
proof (cases rest)
  case Nil
  then show ?thesis by (simp add: merge_screenshot_data_single merge_spec_single)
next
  case (Cons r rs)
  have "merge_subsequent rest (results first, int (length (results first)))
      = (merge_fold rest (results first), int (length (merge_fold rest (results first))))"
    by (rule merge_subsequent_spec [OF assms])
  then show ?thesis
    using Cons by (simp add: merge_screenshot_data_def merge_spec_def Let_def merge_fold_def)
qed

lemma merge_spec_invariant:
  assumes "ranking_invariant first"
  shows "ranking_invariant (merge_spec (first # rest))
     \<and> (\<exists>added. results (merge_spec (first # rest)) = results first @ added)"
proof (cases rest)
  case Nil
  then show ?thesis using assms by (simp add: merge_spec_single)
next
  case (Cons r rs)
  from assms have pc: "positions_contiguous (results first)" and nu: "names_unique (results first)"
    by (simp_all add: ranking_invariant_def)
  have eq: "merge_spec (first # rest)
      = \<lparr>total_players = int (length (merge_fold rest (results first))),
         results = merge_fold rest (results first)\<rparr>"
    using Cons by (simp add: merge_spec_def merge_fold_def Let_def)
  from merge_fold_props [OF pc, of rest] nu show ?thesis
    unfolding eq by (simp add: ranking_invariant_def)
qed

lemma merge_example:
  "merge_screenshot_data [ranking1, ranking2]
     = Inr \<lparr>total_players = 3, results = [(''alice'', 1), (''bob'', 2), (''carol'', 3)]\<rparr>"
  by code_simp

lemma inv_examples: "ranking_invariant ranking1" "ranking_invariant ranking2"
  by code_simp+

text \<open>
  C3. On a non-empty sequence of rankings that satisfy the Ranking invariant,
  \<^verbatim>\<open>merge_screenshot_data\<close> returns what the specified merge returns: a single ranking
  unchanged; otherwise the first ranking's entries verbatim, followed by the entries
  of the later rankings in order, each skipped when its name already occurs
  case-insensitively in the merged list and otherwise appended with the position one
  above the highest position used so far. Merging [("alice",1),("bob",2)] with
  [("bob",1),("carol",2)] gives [("alice",1),("bob",2),("carol",3)] and
  \<^verbatim>\<open>total_players\<close> 3.
\<close>

theorem merge_screenshot_data_as_specified:
  assumes "rankings \<noteq> []" "\<forall>r \<in> set rankings. ranking_invariant r"
  shows "merge_screenshot_data rankings = Inr (merge_spec rankings)
    \<and> (\<forall>r. merge_screenshot_data [r] = Inr r)
    \<and> (\<exists>added. results (merge_spec rankings) = results (hd rankings) @ added)
    \<and> merge_screenshot_data [ranking1, ranking2]
         = Inr \<lparr>total_players = 3, results = [(''alice'', 1), (''bob'', 2), (''carol'', 3)]\<rparr>"
proof -
  from assms obtain first rest where rs: "rankings = first # rest" by (cases rankings) auto
  with assms have inv: "ranking_invariant first" by simp
  then have "positions_contiguous (results first)" by (simp add: ranking_invariant_def)
  from merge_screenshot_data_refines [OF this, of rest] merge_spec_invariant [OF inv, of rest]
  show ?thesis
    by (simp add: rs merge_screenshot_data_single merge_example)
qed

theorem merge_screenshot_data_as_specified_witness:
  "merge_spec [ranking1, ranking2]
     = \<lparr>total_players = 3, results = [(''alice'', 1), (''bob'', 2), (''carol'', 3)]\<rparr>"
proof -
  have "[ranking1, ranking2] \<noteq> []" by simp
  moreover have "\<forall>r \<in> set [ranking1, ranking2]. ranking_invariant r"
    using inv_examples by simp
  ultimately have
    "merge_screenshot_data [ranking1, ranking2] = Inr (merge_spec [ranking1, ranking2])"
    "merge_screenshot_data [ranking1, ranking2]
       = Inr \<lparr>total_players = 3, results = [(''alice'', 1), (''bob'', 2), (''carol'', 3)]\<rparr>"
    using merge_screenshot_data_as_specified [of "[ranking1, ranking2]"] by blast+
  then have "Inr (merge_spec [ranking1, ranking2])
       = (Inr \<lparr>total_players = 3, results = [(''alice'', 1), (''bob'', 2), (''carol'', 3)]\<rparr>
          :: py_error + game_data)"
    by (rule trans [OF sym])
  then show ?thesis by (simp only: sum.inject)
qed


subsection \<open>The parser\<close>

lemma already_listed_iff: "already_listed rs name \<longleftrightarrow> lower name \<in> names_set rs"
  unfolding already_listed_def names_set_def list_ex_iff set_map image_iff by metis

lemma acc_ok_snoc:
  "acc_ok (rs, position) \<Longrightarrow> \<not> already_listed rs name
     \<Longrightarrow> acc_ok (rs @ [(name, position + 1)], position + 1)"
  by (simp add: acc_ok_def positions_contiguous_snoc names_unique_snoc already_listed_iff)

lemma acc_ok_init: "acc_ok ([], 0)"
  by (simp add: acc_ok_def positions_contiguous_def names_unique_def)

lemma strict_pass_ok: "acc_ok (rs, position) \<Longrightarrow> acc_ok (strict_pass lines (rs, position))"
proof (induction lines arbitrary: rs position)
  case Nil
  then show ?case by simp
next
  case (Cons line lines)
  show ?case
    using Cons.IH [OF Cons.prems] acc_ok_snoc [OF Cons.prems, THEN Cons.IH]
    by (simp split: option.split)
qed

lemma first_new_name_fresh: "first_new_name names rs = Some name \<Longrightarrow> \<not> already_listed rs name"
  by (induction names) (auto split: if_splits)

lemma aggressive_pass_ok: "acc_ok (rs, position) \<Longrightarrow> acc_ok (aggressive_pass lines (rs, position))"
proof (induction lines arbitrary: rs position)
  case Nil
  then show ?case by simp
next
  case (Cons line lines)
  show ?case
  proof (cases "first_new_name (findall_names line) rs")
    case None
    then show ?thesis using Cons.IH [OF Cons.prems] by simp
  next
    case (Some name)
    from first_new_name_fresh [OF Some] have "\<not> already_listed rs name" .
    from acc_ok_snoc [OF Cons.prems this, THEN Cons.IH] Cons.IH [OF Cons.prems]
    show ?thesis using Some by simp
  qed
qed

lemma parse_invariant:
  assumes "parse_marbles_screenshot text = Some g"
  shows "ranking_invariant g"
proof -
  define cl where "cl = clean_lines_of text"
  define s where "s = strict_pass cl ([], 0)"
  define a where "a = aggressive_pass cl ([], 0)"
  have s: "acc_ok s" unfolding s_def by (rule strict_pass_ok [OF acc_ok_init])
  have a: "acc_ok a" unfolding a_def by (rule aggressive_pass_ok [OF acc_ok_init])
  define rs where "rs = (if length (fst s) < 2 then fst a else fst s)"
  have ok: "positions_contiguous rs \<and> names_unique rs"
    using s a by (simp add: rs_def acc_ok_def)
  have "parse_marbles_screenshot text
      = (if rs = [] then None else Some \<lparr>total_players = int (length rs), results = rs\<rparr>)"
    by (simp add: parse_marbles_screenshot_def Let_def rs_def s_def a_def cl_def)
  with assms have "g = \<lparr>total_players = int (length rs), results = rs\<rparr>"
    by (simp split: if_splits)
  with ok show ?thesis by (simp add: ranking_invariant_def)
qed

lemma ex_tokens: "split_ws robustness_line = [''1ST'', ''TIME'', ''00:12'', ''Pl4yer0ne'']"
  by code_simp

lemma ex_ordinal: "upper ''1ST'' \<in> set placement_indicators"
  by code_simp

lemma ex_header: "fuzzy_match_any (filter is_word_char ''TIME'') header_keywords"
  by code_simp

lemma ex_find: "find_player_name (split_ws robustness_line) = Some ''Pl4yer0ne''"
  by code_simp

lemma ex_find_rest: "find_player_name [''TIME'', ''00:12'', ''Pl4yer0ne''] = Some ''Pl4yer0ne''"
  "find_player_name [''00:12'', ''Pl4yer0ne''] = Some ''Pl4yer0ne''"
  by code_simp+

lemma ex_not_header: "\<not> fuzzy_match_any robustness_line [''place'', ''player'']"
  by code_simp

lemma ex_digit: "list_ex isdigit robustness_line"
  by code_simp

lemma ex_parse: "parse_marbles_screenshot robustness_line
   = Some \<lparr>total_players = 1, results = [(''Pl4yer0ne'', 1)]\<rparr>"
  by code_simp

lemma ex_strict_step:
  "\<not> already_listed rs ''Pl4yer0ne'' \<Longrightarrow>
   strict_pass [robustness_line] (rs, position) = (rs @ [(''Pl4yer0ne'', position + 1)], position + 1)"
  using ex_not_header ex_digit ex_find by simp


lemma noise_parse: "parse_marbles_screenshot noise_text = None"
  by code_simp

lemma positions_contiguous_nth:
  "positions_contiguous es \<longleftrightarrow> (\<forall>i < length es. snd (es ! i) = int i + 1)"
  unfolding positions_contiguous_def
  by (subst list_eq_iff_nth_eq) simp

lemma names_unique_nth:
  "names_unique es \<longleftrightarrow>
     (\<forall>i < length es. \<forall>j < length es. i \<noteq> j \<longrightarrow> lower (fst (es ! i)) \<noteq> lower (fst (es ! j)))"
  by (auto simp: names_unique_def distinct_conv_nth)

text \<open>
  C4. Every ranking returned by \<^verbatim>\<open>parse_marbles_screenshot\<close>, and every ranking
  returned by \<^verbatim>\<open>merge_screenshot_data\<close> on a non-empty list of rankings that satisfy
  the invariant, satisfies the Ranking invariant: \<^verbatim>\<open>total_players\<close> is the number of
  entries, the entry at index \<open>i\<close> has position \<open>i + 1\<close>, and no two entries have names
  that are equal case-insensitively.
\<close>

theorem ranking_invariant_established:
  "(parse_marbles_screenshot text = Some g \<longrightarrow> ranking_invariant g)
   \<and> (rankings \<noteq> [] \<and> (\<forall>r \<in> set rankings. ranking_invariant r) \<longrightarrow>
        (\<exists>m. merge_screenshot_data rankings = Inr m \<and> ranking_invariant m))
   \<and> (ranking_invariant r \<longleftrightarrow>
        total_players r = int (length (results r))
        \<and> (\<forall>i < length (results r). snd (results r ! i) = int i + 1)
        \<and> (\<forall>i < length (results r). \<forall>j < length (results r).
              i \<noteq> j \<longrightarrow> lower (fst (results r ! i)) \<noteq> lower (fst (results r ! j))))"
proof (intro conjI impI)
  assume "parse_marbles_screenshot text = Some g"
  then show "ranking_invariant g" by (rule parse_invariant)
next
  assume a: "rankings \<noteq> [] \<and> (\<forall>r \<in> set rankings. ranking_invariant r)"
  then obtain first rest where rs: "rankings = first # rest" by (cases rankings) auto
  with a have inv: "ranking_invariant first" by simp
  then have "positions_contiguous (results first)" by (simp add: ranking_invariant_def)
  from merge_screenshot_data_refines [OF this, of rest] merge_spec_invariant [OF inv, of rest]
  show "\<exists>m. merge_screenshot_data rankings = Inr m \<and> ranking_invariant m"
    by (simp add: rs)
next
  show "ranking_invariant r \<longleftrightarrow>
        total_players r = int (length (results r))
        \<and> (\<forall>i < length (results r). snd (results r ! i) = int i + 1)
        \<and> (\<forall>i < length (results r). \<forall>j < length (results r).
              i \<noteq> j \<longrightarrow> lower (fst (results r ! i)) \<noteq> lower (fst (results r ! j)))"
    unfolding ranking_invariant_def positions_contiguous_nth names_unique_nth ..
qed

theorem ranking_invariant_established_witness:
  "ranking_invariant \<lparr>total_players = 1, results = [(''Pl4yer0ne'', 1)]\<rparr>
   \<and> (\<exists>m. merge_screenshot_data [ranking1, ranking2] = Inr m \<and> ranking_invariant m)"
proof -
  have "[ranking1, ranking2] \<noteq> [] \<and> (\<forall>r \<in> set [ranking1, ranking2]. ranking_invariant r)"
    using inv_examples by simp
  then show ?thesis
    using ranking_invariant_established
      [of robustness_line "\<lparr>total_players = 1, results = [(''Pl4yer0ne'', 1)]\<rparr>"
          "[ranking1, ranking2]"]
      ex_parse
    by blast
qed

lemma collect_parsed_none:
  "\<forall>t \<in> set texts. parse_marbles_screenshot t = None \<Longrightarrow> collect_parsed texts = []"
  by (induction texts) auto

text \<open>
  C6. For every input text \<^verbatim>\<open>parse_marbles_screenshot\<close> returns either \<^verbatim>\<open>None\<close> or a
  ranking with at least one entry, never an empty ranking; when the strict pass and
  the aggressive pass both accept no entry it returns \<^verbatim>\<open>None\<close>; and a submission whose
  texts all parse to \<^verbatim>\<open>None\<close> leaves the state, and so every score, unchanged.
\<close>

theorem parse_absent_or_nonempty:
  "(parse_marbles_screenshot text = None
      \<or> (\<exists>g. parse_marbles_screenshot text = Some g \<and> results g \<noteq> []))
   \<and> (fst (strict_pass (clean_lines_of text) ([], 0)) = []
        \<and> fst (aggressive_pass (clean_lines_of text) ([], 0)) = []
        \<longrightarrow> parse_marbles_screenshot text = None)
   \<and> ((\<forall>t \<in> set texts. parse_marbles_screenshot t = None)
        \<longrightarrow> submit_marbles texts st = Inr st)"
proof (intro conjI impI)
  show "parse_marbles_screenshot text = None
      \<or> (\<exists>g. parse_marbles_screenshot text = Some g \<and> results g \<noteq> [])"
    by (simp add: parse_marbles_screenshot_def Let_def)
next
  assume "fst (strict_pass (clean_lines_of text) ([], 0)) = []
        \<and> fst (aggressive_pass (clean_lines_of text) ([], 0)) = []"
  then show "parse_marbles_screenshot text = None"
    by (simp add: parse_marbles_screenshot_def Let_def)
next
  assume "\<forall>t \<in> set texts. parse_marbles_screenshot t = None"
  then have "collect_parsed texts = []" by (rule collect_parsed_none)
  then show "submit_marbles texts st = Inr st"
    by (simp add: submit_marbles_def Let_def)
qed

theorem parse_absent_or_nonempty_witness:
  "parse_marbles_screenshot noise_text = None
   \<and> submit_marbles [noise_text] initial_state = Inr initial_state"
proof -
  have "\<forall>t \<in> set [noise_text]. parse_marbles_screenshot t = None"
    using noise_parse by simp
  then show ?thesis
    using parse_absent_or_nonempty [of noise_text "[noise_text]" initial_state] noise_parse
    by blast
qed

lemma ex_username: "match_username ''Pl4yer0ne''"
  by code_simp

text \<open>
  C8. On the line "1ST TIME 00:12 Pl4yer0ne" the tokens are 1ST, TIME, 00:12 and
  Pl4yer0ne; the placement ordinal 1ST and the header-like token TIME are skipped, and
  Pl4yer0ne, which matches the user-name pattern, is the player name found; a strict
  pass over that line appends it at the next sequential position unless it is already
  listed; and parsing the line as the whole input returns exactly the ranking
  [("Pl4yer0ne", 1)].
\<close>

theorem parser_robustness_example:
  "split_ws ''1ST TIME 00:12 Pl4yer0ne'' = [''1ST'', ''TIME'', ''00:12'', ''Pl4yer0ne'']
   \<and> upper ''1ST'' \<in> set placement_indicators
   \<and> fuzzy_match_any (filter is_word_char ''TIME'') header_keywords
   \<and> match_username ''Pl4yer0ne''
   \<and> find_player_name [''1ST'', ''TIME'', ''00:12'', ''Pl4yer0ne'']
        = find_player_name [''00:12'', ''Pl4yer0ne'']
   \<and> find_player_name [''1ST'', ''TIME'', ''00:12'', ''Pl4yer0ne''] = Some ''Pl4yer0ne''
   \<and> (\<not> already_listed rs ''Pl4yer0ne'' \<longrightarrow>
        strict_pass [''1ST TIME 00:12 Pl4yer0ne''] (rs, position)
          = (rs @ [(''Pl4yer0ne'', position + 1)], position + 1))
   \<and> parse_marbles_screenshot ''1ST TIME 00:12 Pl4yer0ne''
        = Some \<lparr>total_players = 1, results = [(''Pl4yer0ne'', 1)]\<rparr>"
  using ex_tokens ex_ordinal ex_header ex_username ex_find ex_find_rest ex_strict_step [of rs position]
    ex_parse
  by (simp add: robustness_line_def)

lemma ex_not_listed: "\<not> already_listed [(''alice'', 1)] ''Pl4yer0ne''"
  by code_simp

theorem parser_robustness_example_witness:
  "strict_pass [''1ST TIME 00:12 Pl4yer0ne''] ([(''alice'', 1)], 1)
     = ([(''alice'', 1), (''Pl4yer0ne'', 2)], 2)"
  using parser_robustness_example [of "[(''alice'', 1)]" 1] ex_not_listed
  by simp

subsection \<open>The ledger\<close>

lemma calc_bounty_of:
  "calculate_bounty p n (p = 1) = Inr b \<Longrightarrow> bounty_of n p = b"
  by (simp add: bounty_of_def)

lemma add_bounties_lookup:
  assumes "scores_ok n es" "distinct (map fst es)"
  shows "\<exists>board'. add_bounties n es board = Inr board' \<and>
           (\<forall>x. board' x = (case map_of es x of
                               None \<Rightarrow> board x
                             | Some p \<Rightarrow> Some ((case board x of None \<Rightarrow> 0 | Some v \<Rightarrow> v)
                                                + bounty_of n p)))"
  using assms
proof (induction es arbitrary: board)
  case Nil
  then show ?case by simp
next
  case (Cons e es)
  obtain nm p where e: "e = (nm, p)" by (cases e)
  from Cons.prems obtain b where b: "calculate_bounty p n (p = 1) = Inr b"
    and ok: "scores_ok n es" by (auto simp: scores_ok_def e)
  from Cons.prems have d: "distinct (map fst es)" and fresh: "nm \<notin> fst ` set es"
    by (simp_all add: e)
  define board1 where
    "board1 = (case board nm of Some current \<Rightarrow> board(nm \<mapsto> current + b)
               | None \<Rightarrow> board(nm \<mapsto> b))"
  have b1: "board1 nm = Some ((case board nm of None \<Rightarrow> 0 | Some v \<Rightarrow> v) + b)"
    "\<And>x. x \<noteq> nm \<Longrightarrow> board1 x = board x"
    by (simp_all add: board1_def split: option.split)
  have step: "add_bounties n (e # es) board = add_bounties n es board1"
    by (simp add: e b board1_def Let_def)
  from Cons.IH [OF ok d, of board1] obtain board' where
    r: "add_bounties n es board1 = Inr board'"
    and l: "\<And>x. board' x = (case map_of es x of
                               None \<Rightarrow> board1 x
                             | Some p \<Rightarrow> Some ((case board1 x of None \<Rightarrow> 0 | Some v \<Rightarrow> v)
                                                + bounty_of n p))"
    by blast
  have nm_none: "map_of es nm = None" using fresh by (simp add: map_of_eq_None_iff)
  have "\<forall>x. board' x = (case map_of (e # es) x of
                               None \<Rightarrow> board x
                             | Some p \<Rightarrow> Some ((case board x of None \<Rightarrow> 0 | Some v \<Rightarrow> v)
                                                + bounty_of n p))"
  proof
    fix x
    show "board' x = (case map_of (e # es) x of
                               None \<Rightarrow> board x
                             | Some p \<Rightarrow> Some ((case board x of None \<Rightarrow> 0 | Some v \<Rightarrow> v)
                                                + bounty_of n p))"
    proof (cases "x = nm")
      case True
      then show ?thesis using l [of nm] nm_none b1(1) calc_bounty_of [OF b]
        by (simp add: e split: option.split)
    next
      case False
      then show ?thesis using l [of x] b1(2) [OF False]
        by (simp add: e split: option.split)
    qed
  qed
  with r step show ?case by simp
qed

lemma revert_bounties_lookup:
  assumes "scores_ok n es" "distinct (map fst es)"
  shows "\<exists>board'. revert_bounties n es board = Inr board' \<and>
           (\<forall>x. board' x = (case map_of es x of
                               None \<Rightarrow> board x
                             | Some p \<Rightarrow> (case board x of
                                            None \<Rightarrow> None
                                          | Some v \<Rightarrow> if v - bounty_of n p = 0 then None
                                                       else Some (v - bounty_of n p))))"
  using assms
proof (induction es arbitrary: board)
  case Nil
  then show ?case by simp
next
  case (Cons e es)
  obtain nm p where e: "e = (nm, p)" by (cases e)
  from Cons.prems obtain b where b: "calculate_bounty p n (p = 1) = Inr b"
    and ok: "scores_ok n es" by (auto simp: scores_ok_def e)
  from Cons.prems have d: "distinct (map fst es)" and fresh: "nm \<notin> fst ` set es"
    by (simp_all add: e)
  define board1 where
    "board1 = (case board nm of
                 Some current \<Rightarrow> if current - b = 0 then board(nm := None)
                                  else board(nm \<mapsto> current - b)
               | None \<Rightarrow> board)"
  have b1: "board1 nm = (case board nm of None \<Rightarrow> None
                         | Some v \<Rightarrow> if v - b = 0 then None else Some (v - b))"
    "\<And>x. x \<noteq> nm \<Longrightarrow> board1 x = board x"
    by (simp_all add: board1_def split: option.split)
  have step: "revert_bounties n (e # es) board = revert_bounties n es board1"
    by (simp add: e b board1_def Let_def)
  from Cons.IH [OF ok d, of board1] obtain board' where
    r: "revert_bounties n es board1 = Inr board'"
    and l: "\<And>x. board' x = (case map_of es x of
                               None \<Rightarrow> board1 x
                             | Some p \<Rightarrow> (case board1 x of
                                            None \<Rightarrow> None
                                          | Some v \<Rightarrow> if v - bounty_of n p = 0 then None
                                                       else Some (v - bounty_of n p)))"
    by blast
  have nm_none: "map_of es nm = None" using fresh by (simp add: map_of_eq_None_iff)
  have "\<forall>x. board' x = (case map_of (e # es) x of
                               None \<Rightarrow> board x
                             | Some p \<Rightarrow> (case board x of
                                            None \<Rightarrow> None
                                          | Some v \<Rightarrow> if v - bounty_of n p = 0 then None
                                                       else Some (v - bounty_of n p)))"
  proof
    fix x
    show "board' x = (case map_of (e # es) x of
                               None \<Rightarrow> board x
                             | Some p \<Rightarrow> (case board x of
                                            None \<Rightarrow> None
                                          | Some v \<Rightarrow> if v - bounty_of n p = 0 then None
                                                       else Some (v - bounty_of n p)))"
    proof (cases "x = nm")
      case True
      then show ?thesis using l [of nm] nm_none b1(1) calc_bounty_of [OF b]
        by (simp add: e split: option.split)
    next
      case False
      then show ?thesis using l [of x] b1(2) [OF False]
        by (simp add: e split: option.split)
    qed
  qed
  with r step show ?case by simp
qed


lemma contiguous_position_range:
  assumes "positions_contiguous es" "e \<in> set es"
  shows "1 \<le> snd e \<and> snd e \<le> int (length es)"
proof -
  from assms(2) obtain i where "i < length es" "es ! i = e" by (auto simp: in_set_conv_nth)
  with assms(1) show ?thesis by (auto simp: positions_contiguous_nth)
qed

lemma invariant_scores_ok:
  assumes "ranking_invariant R" "total_players R < 2 ^ 63"
  shows "scores_ok (total_players R) (results R)"
proof -
  from assms(1) have pc: "positions_contiguous (results R)"
    and n: "total_players R = int (length (results R))" by (simp_all add: ranking_invariant_def)
  have "\<exists>b. calculate_bounty (snd e) (total_players R) (snd e = 1) = Inr b"
    if "e \<in> set (results R)" for e
  proof -
    from contiguous_position_range [OF pc that] n
    have "1 \<le> snd e" "snd e \<le> total_players R" by simp_all
    with assms(2) have "\<bar>snd e\<bar> < 2 ^ 63" "\<bar>total_players R\<bar> < 2 ^ 63" by simp_all
    then show ?thesis by (rule calculate_bounty_total)
  qed
  then show ?thesis by (simp add: scores_ok_def list_all_iff)
qed

lemma names_unique_distinct: "names_unique es \<Longrightarrow> distinct (map fst es)"
proof -
  assume "names_unique es"
  then have "distinct (map lower (map fst es))"
    unfolding names_unique_def map_map comp_def .
  then show ?thesis by (simp only: distinct_map [of lower])
qed

lemma map_of_None_iff_names: "map_of es x = None \<longleftrightarrow> x \<notin> fst ` set es"
  by (simp add: map_of_eq_None_iff)

lemma apply_revert_lookup:
  assumes "scores_ok n es" "distinct (map fst es)"
  shows "\<exists>board1 board2.
           add_bounties n es board = Inr board1
         \<and> revert_bounties n es board1 = Inr board2
         \<and> (\<forall>x. board1 x = (case map_of es x of
                               None \<Rightarrow> board x
                             | Some p \<Rightarrow> Some ((case board x of None \<Rightarrow> 0 | Some v \<Rightarrow> v)
                                                + bounty_of n p)))
         \<and> (\<forall>x. board2 x = (if x \<in> fst ` set es \<and> board x = Some 0 then None else board x))"
proof -
  from add_bounties_lookup [OF assms, of board] obtain board1 where
    a: "add_bounties n es board = Inr board1"
    and la: "\<And>x. board1 x = (case map_of es x of
                               None \<Rightarrow> board x
                             | Some p \<Rightarrow> Some ((case board x of None \<Rightarrow> 0 | Some v \<Rightarrow> v)
                                                + bounty_of n p))" by blast
  from revert_bounties_lookup [OF assms, of board1] obtain board2 where
    r: "revert_bounties n es board1 = Inr board2"
    and lr: "\<And>x. board2 x = (case map_of es x of
                               None \<Rightarrow> board1 x
                             | Some p \<Rightarrow> (case board1 x of
                                            None \<Rightarrow> None
                                          | Some v \<Rightarrow> if v - bounty_of n p = 0 then None
                                                       else Some (v - bounty_of n p)))" by blast
  have "board2 x = (if x \<in> fst ` set es \<and> board x = Some 0 then None else board x)" for x
  proof (cases "map_of es x")
    case None
    then have "x \<notin> fst ` set es" by (simp add: map_of_None_iff_names)
    with None show ?thesis using lr [of x] la [of x] by simp
  next
    case (Some p)
    then have "x \<in> fst ` set es" using map_of_None_iff_names [of es x] by simp
    with Some show ?thesis using lr [of x] la [of x] by (simp split: option.split)
  qed
  with a r la show ?thesis by blast
qed

text \<open>
  C2. For every ranking \<open>R\<close> that satisfies the Ranking invariant (with fewer than
  \<open>2 ^ 63\<close> entries, the bound of a Python list) and every prior state, applying \<open>R\<close>
  succeeds and adds to each named player the bounty computed from \<open>R\<close>'s own
  \<^verbatim>\<open>total_players\<close>, an absent player starting from 0; reverting \<open>R\<close> right after
  succeeds and leaves every player with the prior total, except that a player of \<open>R\<close>
  whose total becomes 0 in the revert (prior total 0, or absent before) is not a key
  of the board afterwards.
\<close>

theorem apply_then_revert_restores:
  assumes "ranking_invariant R" "total_players R < 2 ^ 63"
  shows "\<exists>st1 board2.
           update_bounty_board R st = Inr st1
         \<and> revert_bounties (total_players R) (results R) (bounty_board st1) = Inr board2
         \<and> (\<forall>x. bounty_board st1 x =
                  (case map_of (results R) x of
                     None \<Rightarrow> bounty_board st x
                   | Some p \<Rightarrow> Some ((case bounty_board st x of None \<Rightarrow> 0 | Some v \<Rightarrow> v)
                                      + bounty_of (total_players R) p)))
         \<and> (\<forall>x. board2 x =
                  (if x \<in> fst ` set (results R) \<and> bounty_board st x = Some 0 then None
                   else bounty_board st x))"
proof -
  have ok: "scores_ok (total_players R) (results R)" by (rule invariant_scores_ok [OF assms])
  have d: "distinct (map fst (results R))"
    using assms(1) by (simp add: ranking_invariant_def names_unique_distinct)
  from apply_revert_lookup [OF ok d, of "bounty_board st"] obtain board1 board2 where
    a: "add_bounties (total_players R) (results R) (bounty_board st) = Inr board1"
    and rest: "revert_bounties (total_players R) (results R) board1 = Inr board2"
      "\<forall>x. board1 x = (case map_of (results R) x of
                               None \<Rightarrow> bounty_board st x
                             | Some p \<Rightarrow> Some ((case bounty_board st x of None \<Rightarrow> 0 | Some v \<Rightarrow> v)
                                                + bounty_of (total_players R) p))"
      "\<forall>x. board2 x = (if x \<in> fst ` set (results R) \<and> bounty_board st x = Some 0 then None
                        else bounty_board st x)" by blast
  have "update_bounty_board R st
      = Inr (st\<lparr>last_game_data := Some R, bounty_board := board1, db_file := board1\<rparr>)"
    using a by (simp add: update_bounty_board_def Let_def)
  with rest show ?thesis by simp
qed

lemma sample_inv: "ranking_invariant ranking1" "total_players ranking1 < 2 ^ 63"
  by code_simp+

theorem apply_then_revert_restores_witness:
  "\<exists>st1 board2.
     update_bounty_board ranking1 sample_state = Inr st1
   \<and> revert_bounties 2 [(''alice'', 1), (''bob'', 2)] (bounty_board st1) = Inr board2
   \<and> board2 ''alice'' = None \<and> board2 ''bob'' = Some 50 \<and> board2 ''Carol'' = Some 7"
proof -
  from apply_then_revert_restores [OF sample_inv, of sample_state]
  obtain st1 board2 where
    "update_bounty_board ranking1 sample_state = Inr st1"
    "revert_bounties (total_players ranking1) (results ranking1) (bounty_board st1) = Inr board2"
    "\<forall>x. board2 x =
          (if x \<in> fst ` set (results ranking1) \<and> bounty_board sample_state x = Some 0 then None
           else bounty_board sample_state x)" by blast
  then show ?thesis by (auto simp: ranking1_def sample_state_def)
qed


lemma revert_keeps_absent:
  "board x = None \<Longrightarrow> board_after (revert_bounties n es board) x = None"
proof (induction es arbitrary: board)
  case Nil
  then show ?case by (simp add: board_after_def)
next
  case (Cons e es)
  obtain nm p where e: "e = (nm, p)" by (cases e)
  show ?case
  proof (cases "calculate_bounty p n (p = 1)")
    case (Inl err)
    then show ?thesis using Cons.prems by (simp add: e board_after_def)
  next
    case (Inr b)
    define board1 where
      "board1 = (case board nm of
                   Some current \<Rightarrow> if current - b = 0 then board(nm := None)
                                    else board(nm \<mapsto> current - b)
                 | None \<Rightarrow> board)"
    have "board1 x = None"
      using Cons.prems by (auto simp: board1_def split: option.split)
    from Cons.IH [of board1, OF this] show ?thesis
      by (simp add: e Inr board1_def Let_def)
  qed
qed

lemma revert_untouched:
  "x \<notin> fst ` set es \<Longrightarrow> board_after (revert_bounties n es board) x = board x"
proof (induction es arbitrary: board)
  case Nil
  then show ?case by (simp add: board_after_def)
next
  case (Cons e es)
  obtain nm p where e: "e = (nm, p)" by (cases e)
  from Cons.prems have ne: "x \<noteq> nm" and rest: "x \<notin> fst ` set es" by (auto simp: e)
  show ?case
  proof (cases "calculate_bounty p n (p = 1)")
    case (Inl err)
    then show ?thesis by (simp add: e board_after_def)
  next
    case (Inr b)
    define board1 where
      "board1 = (case board nm of
                   Some current \<Rightarrow> if current - b = 0 then board(nm := None)
                                    else board(nm \<mapsto> current - b)
                 | None \<Rightarrow> board)"
    have "board1 x = board x"
      using ne by (auto simp: board1_def split: option.split)
    with Cons.IH [OF rest, of board1] show ?thesis
      by (simp add: e Inr board1_def Let_def)
  qed
qed

lemma bounty_1_of_2: "calculate_bounty 1 2 True = Inr 220"
  by code_simp

text \<open>
  C10. In the revert loop an entry whose name is not a key of the board (exact,
  case-sensitive equality) is skipped: the loop goes on with the board unchanged. A
  name that is a key has the bounty subtracted, and is deleted when the total becomes
  0. So a name that is not a key before the loop is not a key after it (no entry is
  created, no negative score appears), and a key that is no entry's exact name keeps
  its total, whether or not the loop raises. The bounty is computed without an
  exception for positions and field sizes below \<open>2 ^ 63\<close> in absolute value.
\<close>

theorem revert_skips_absent_names:
  "(board player_name = None \<and> calculate_bounty position n (position = 1) = Inr bounty \<longrightarrow>
      revert_bounties n ((player_name, position) # rest) board = revert_bounties n rest board)
   \<and> (board player_name = Some current
        \<and> calculate_bounty position n (position = 1) = Inr bounty \<longrightarrow>
      revert_bounties n ((player_name, position) # rest) board
        = revert_bounties n rest
            (if current - bounty = 0 then board(player_name := None)
             else board(player_name \<mapsto> current - bounty)))
   \<and> (board x = None \<longrightarrow> board_after (revert_bounties n entries board) x = None)
   \<and> (x \<notin> fst ` set entries \<longrightarrow> board_after (revert_bounties n entries board) x = board x)
   \<and> (\<bar>position\<bar> < 2 ^ 63 \<and> \<bar>n\<bar> < 2 ^ 63 \<longrightarrow>
        (\<exists>b. calculate_bounty position n (position = 1) = Inr b))"
  using revert_keeps_absent [of board x n entries] revert_untouched [of x entries n board]
    calculate_bounty_total [of position n "position = 1"]
  by (simp add: Let_def)

theorem revert_skips_absent_names_witness:
  "revert_bounties 2 [(''bob'', 1)] [''Bob'' \<mapsto> 100] = Inr [''Bob'' \<mapsto> 100]
   \<and> revert_bounties 2 [(''Bob'', 1)] [''Bob'' \<mapsto> 320] = Inr [''Bob'' \<mapsto> 100]
   \<and> board_after (revert_bounties 2 [(''bob'', 1)] [''Bob'' \<mapsto> 100]) ''bob'' = None
   \<and> board_after (revert_bounties 2 [(''bob'', 1)] [''Bob'' \<mapsto> 100]) ''Bob'' = Some 100
   \<and> (\<exists>b. calculate_bounty 1 2 True = Inr b)"
  using
    revert_skips_absent_names
      [where board = "[''Bob'' \<mapsto> 100]" and player_name = "''bob''" and position = 1
         and n = 2 and bounty = 220 and rest = "[]"]
    revert_skips_absent_names
      [where board = "[''Bob'' \<mapsto> 320]" and player_name = "''Bob''" and position = 1
         and n = 2 and bounty = 220 and current = 320 and rest = "[]"]
    bounty_1_of_2
    revert_skips_absent_names
      [where board = "[''Bob'' \<mapsto> 100]" and x = "''bob''" and entries = "[(''bob'', 1)]" and n = 2]
    revert_skips_absent_names
      [where board = "[''Bob'' \<mapsto> 100]" and x = "''Bob''" and entries = "[(''bob'', 1)]" and n = 2]
  by simp


lemma filtered_names:
  "map fst (filter (\<lambda>(name, pos). name \<notin> set S) es) = filter (\<lambda>name. name \<notin> set S) (map fst es)"
  by (induction es) auto

lemma renumber_zip:
  "map (\<lambda>(idx, (name, pos)). (name, int idx + 1)) (enumerate k es)
     = zip (map fst es) (map (\<lambda>i. int i + 1) [k..<k + length es])"
proof (induction es arbitrary: k)
  case Nil
  then show ?case by simp
next
  case (Cons e es)
  have "k < k + length (e # es)" by simp
  then have "[k..<k + length (e # es)] = k # [Suc k..<k + length (e # es)]"
    by (rule upt_conv_Cons)
  moreover have "k + length (e # es) = Suc k + length es" by simp
  ultimately have u: "[k..<k + length (e # es)] = k # [Suc k..<Suc k + length es]"
    by (simp only:)
  show ?case
    unfolding u using Cons.IH [of "Suc k"] by (simp add: case_prod_beta del: upt_Suc)
qed

lemma corrected_game_spec: "corrected_game R S = corrected_spec R S"
proof -
  define es where "es = filter (\<lambda>(name, pos). name \<notin> set S) (results R)"
  have n: "map fst es = filter (\<lambda>name. name \<notin> set S) (map fst (results R))"
    unfolding es_def by (rule filtered_names)
  have "length (map fst es) = length es" by simp
  then have len: "length (filter (\<lambda>name. name \<notin> set S) (map fst (results R))) = length es"
    by (simp only: n)
  have "corrected_game R S
      = \<lparr>total_players = int (length es),
         results = map (\<lambda>(idx, (name, pos)). (name, int idx + 1)) (enumerate 0 es)\<rparr>"
    by (simp add: corrected_game_def Let_def es_def)
  also have "\<dots> = \<lparr>total_players = int (length es),
         results = zip (map fst es) (map (\<lambda>i. int i + 1) [0..<length es])\<rparr>"
    using renumber_zip [of 0 es] by simp
  also have "\<dots> = corrected_spec R S"
    by (simp add: corrected_spec_def Let_def n [symmetric])
  finally show ?thesis .
qed

lemma corrected_spec_names:
  "map fst (results (corrected_spec R S)) = filter (\<lambda>name. name \<notin> set S) (map fst (results R))"
  by (simp add: corrected_spec_def Let_def)

lemma corrected_spec_positions: "positions_contiguous (results (corrected_spec R S))"
  by (simp add: corrected_spec_def Let_def positions_contiguous_def)

lemma corrected_spec_total:
  "total_players (corrected_spec R S) = int (length (results (corrected_spec R S)))"
  by (simp add: corrected_spec_def Let_def)

lemma corrected_spec_unique:
  assumes "names_unique (results R)"
  shows "names_unique (results (corrected_spec R S))"
proof -
  from assms have "distinct (map lower (map fst (results R)))"
    unfolding names_unique_def map_map comp_def .
  then have "distinct (map lower (filter (\<lambda>name. name \<notin> set S) (map fst (results R))))"
    by (rule distinct_map_filter)
  then have "distinct (map lower (map fst (results (corrected_spec R S))))"
    by (simp only: corrected_spec_names)
  then show ?thesis unfolding names_unique_def map_map comp_def .
qed

lemma corrected_spec_invariant:
  "ranking_invariant R \<Longrightarrow> ranking_invariant (corrected_spec R S)"
  by (simp add: ranking_invariant_def corrected_spec_positions corrected_spec_total
      corrected_spec_unique)

lemma corrected_spec_smaller: "total_players (corrected_spec R S) \<le> int (length (results R))"
proof -
  have "length (filter (\<lambda>name. name \<notin> set S) (map fst (results R))) \<le> length (map fst (results R))"
    by (rule length_filter_le)
  then show ?thesis by (simp add: corrected_spec_def Let_def)
qed

lemma done_editing_nonempty:
  "removed_players \<noteq> [] \<Longrightarrow> done_editing R removed_players st = correction_spec R removed_players st"
  by (simp only: done_editing_def correction_spec_def corrected_game_spec if_False)

lemma correction_succeeds:
  assumes "ranking_invariant R" "total_players R < 2 ^ 63"
  shows "\<exists>board1 st'.
           revert_bounties (total_players R) (results R) (bounty_board st) = Inr board1
         \<and> update_bounty_board (corrected_spec R S) (st\<lparr>bounty_board := board1\<rparr>) = Inr st'
         \<and> correction_spec R S st = Inr st'
         \<and> last_game_data st' = Some (corrected_spec R S)"
proof -
  have ok: "scores_ok (total_players R) (results R)" by (rule invariant_scores_ok [OF assms])
  have d: "distinct (map fst (results R))"
    using assms(1) by (simp add: ranking_invariant_def names_unique_distinct)
  from revert_bounties_lookup [OF ok d, of "bounty_board st"] obtain board1 where
    r: "revert_bounties (total_players R) (results R) (bounty_board st) = Inr board1" by blast
  have inv': "ranking_invariant (corrected_spec R S)"
    by (rule corrected_spec_invariant [OF assms(1)])
  have "total_players (corrected_spec R S) \<le> total_players R"
    using corrected_spec_smaller [of R S] assms(1) by (simp add: ranking_invariant_def)
  with assms(2) have small: "total_players (corrected_spec R S) < 2 ^ 63" by simp
  have ok': "scores_ok (total_players (corrected_spec R S)) (results (corrected_spec R S))"
    by (rule invariant_scores_ok [OF inv' small])
  have d': "distinct (map fst (results (corrected_spec R S)))"
    using inv' by (simp add: ranking_invariant_def names_unique_distinct)
  from add_bounties_lookup [OF ok' d', of board1] obtain board2 where
    a: "add_bounties (total_players (corrected_spec R S)) (results (corrected_spec R S)) board1
          = Inr board2" by blast
  define st' where "st' = st\<lparr>bounty_board := board1, last_game_data := Some (corrected_spec R S),
                               bounty_board := board2, db_file := board2\<rparr>"
  have u: "update_bounty_board (corrected_spec R S) (st\<lparr>bounty_board := board1\<rparr>) = Inr st'"
    using a by (simp add: update_bounty_board_def Let_def st'_def)
  have "correction_spec R S st = Inr st'"
    using r u by (simp add: correction_spec_def)
  moreover have "last_game_data st' = Some (corrected_spec R S)" by (simp add: st'_def)
  ultimately show ?thesis using r u by blast
qed

text \<open>
  C5 (amended). When at least one name is selected for removal, \<^verbatim>\<open>done_editing\<close> on the
  last submitted ranking \<open>R\<close> does what the specified workflow does: it reverts \<open>R\<close>
  and applies the corrected ranking, whose entries are the entries of \<open>R\<close> with a name
  not selected, in their original order, numbered from 1. If \<open>R\<close> satisfies the Ranking
  invariant (with fewer than \<open>2 ^ 63\<close> entries), both steps succeed, the corrected
  ranking satisfies the invariant and it becomes the last submitted ranking. When
  nothing is selected, \<^verbatim>\<open>done_editing\<close> returns at once: the board and the last
  submitted ranking are unchanged, so no player's total changes.
\<close>

theorem done_editing_corrects_last_game:
  "(removed_players \<noteq> [] \<longrightarrow>
      done_editing R removed_players st = correction_spec R removed_players st
    \<and> corrected_game R removed_players = corrected_spec R removed_players
    \<and> map fst (results (corrected_game R removed_players))
        = filter (\<lambda>name. name \<notin> set removed_players) (map fst (results R))
    \<and> positions_contiguous (results (corrected_game R removed_players))
    \<and> total_players (corrected_game R removed_players)
        = int (length (results (corrected_game R removed_players))))
   \<and> (removed_players \<noteq> [] \<and> ranking_invariant R \<and> total_players R < 2 ^ 63 \<longrightarrow>
        (\<exists>board1 st'.
            revert_bounties (total_players R) (results R) (bounty_board st) = Inr board1
          \<and> update_bounty_board (corrected_game R removed_players)
               (st\<lparr>bounty_board := board1\<rparr>) = Inr st'
          \<and> done_editing R removed_players st = Inr st'
          \<and> last_game_data st' = Some (corrected_game R removed_players)
          \<and> ranking_invariant (corrected_game R removed_players)))
   \<and> done_editing R [] st = Inr st"
proof (intro conjI impI)
  show "done_editing R [] st = Inr st" by (simp add: done_editing_def)
next
  assume "removed_players \<noteq> [] \<and> ranking_invariant R \<and> total_players R < 2 ^ 63"
  then have ne: "removed_players \<noteq> []" and inv: "ranking_invariant R"
    and small: "total_players R < 2 ^ 63" by simp_all
  from correction_succeeds [OF inv small, of st removed_players]
    corrected_spec_invariant [OF inv, of removed_players]
  show "\<exists>board1 st'.
            revert_bounties (total_players R) (results R) (bounty_board st) = Inr board1
          \<and> update_bounty_board (corrected_game R removed_players)
               (st\<lparr>bounty_board := board1\<rparr>) = Inr st'
          \<and> done_editing R removed_players st = Inr st'
          \<and> last_game_data st' = Some (corrected_game R removed_players)
          \<and> ranking_invariant (corrected_game R removed_players)"
    by (simp only: done_editing_nonempty [OF ne] corrected_game_spec) blast
qed (simp_all add: done_editing_nonempty corrected_game_spec corrected_spec_names
      corrected_spec_positions corrected_spec_total)

lemma after_reset_reachable:
  "\<exists>st1. update_bounty_board ranking1 initial_state = Inr st1 \<and> reset_slash st1 = after_reset"
proof -
  have ok: "scores_ok (total_players ranking1) (results ranking1)"
    by (rule invariant_scores_ok [OF sample_inv])
  have d: "distinct (map fst (results ranking1))" by (simp add: ranking1_def)
  from add_bounties_lookup [OF ok d, of "bounty_board initial_state"] obtain board1 where
    "add_bounties (total_players ranking1) (results ranking1) (bounty_board initial_state)
       = Inr board1" by blast
  then have "update_bounty_board ranking1 initial_state
      = Inr (initial_state\<lparr>last_game_data := Some ranking1, bounty_board := board1,
                            db_file := board1\<rparr>)"
    by (simp add: update_bounty_board_def Let_def)
  then show ?thesis by (simp add: reset_slash_def after_reset_def initial_state_def)
qed

lemma corrected_example:
  "corrected_game ranking1 [''bob''] = \<lparr>total_players = 1, results = [(''alice'', 1)]\<rparr>"
  by code_simp

lemma corrected_example_boards:
  "state_board (done_editing ranking1 [''bob''] after_submit) ''alice'' = Some 210"
  "state_board (done_editing ranking1 [''bob''] after_submit) ''bob'' = None"
  by code_simp+

theorem done_editing_corrects_last_game_witness:
  "(\<exists>st'. done_editing ranking1 [''bob''] after_submit = Inr st'
          \<and> last_game_data st' = Some \<lparr>total_players = 1, results = [(''alice'', 1)]\<rparr>)
   \<and> state_board (done_editing ranking1 [''bob''] after_submit) ''alice'' = Some 210
   \<and> state_board (done_editing ranking1 [''bob''] after_submit) ''bob'' = None
   \<and> done_editing ranking1 [] after_submit = Inr after_submit"
proof -
  have "[''bob''] \<noteq> [] \<and> ranking_invariant ranking1 \<and> total_players ranking1 < 2 ^ 63"
    using sample_inv by simp
  with done_editing_corrects_last_game [of "[''bob'']" ranking1 after_submit]
  have "\<exists>st'. done_editing ranking1 [''bob''] after_submit = Inr st'
          \<and> last_game_data st' = Some (corrected_game ranking1 [''bob''])"
    and "done_editing ranking1 [] after_submit = Inr after_submit"
    by blast+
  then show ?thesis
    using corrected_example_boards by (simp only: corrected_example)
qed

text \<open>
  With nothing selected the command does not revert and re-apply. After a reset of the
  board, reverting \<open>ranking1\<close> (nothing to subtract from) and applying it again would
  give alice 220; \<^verbatim>\<open>done_editing\<close> leaves the board empty.
\<close>

theorem done_editing_empty_selection_counterexample:
  "state_board (done_editing ranking1 [] after_reset) ''alice'' = None
   \<and> state_board (correction_spec ranking1 [] after_reset) ''alice'' = Some 220"
  by code_simp

lemma bounty_2_of_2: "calculate_bounty 2 2 False = Inr 0"
  by code_simp

lemma after_submit_reached: "update_bounty_board ranking1 initial_state = Inr after_submit"
  using bounty_1_of_2 bounty_2_of_2
  by (simp add: update_bounty_board_def ranking1_def initial_state_def after_submit_def Let_def)

end
